theory Spec2Isabelle
  imports Main
begin

section \<open>The syntax tree handed over by libclang\<close>

text \<open>
  \<^verbatim>\<open>Main.c\<close> never builds the tree itself: it queries a cursor for its kind
  (\<^verbatim>\<open>clang_getCursorKind\<close>), its spelling (\<^verbatim>\<open>clang_getCursorSpelling\<close>) and walks its
  children (\<^verbatim>\<open>clang_visitChildren\<close>). A cursor is therefore modelled as a rose tree
  carrying exactly these three attributes. The visitor compares the kind against six
  enumerators; every other enumerator of \<^verbatim>\<open>enum CXCursorKind\<close> behaves alike, a few
  are named here and the rest is \<open>CXCursor_Other\<close> with its numeric code.
\<close>

datatype CXCursorKind =
    CXCursor_IfStmt
  | CXCursor_ForStmt
  | CXCursor_WhileStmt
  | CXCursor_CaseStmt
  | CXCursor_ConditionalOperator
  | CXCursor_VarDecl
  | CXCursor_DoStmt
  | CXCursor_SwitchStmt
  | CXCursor_FunctionDecl
  | CXCursor_CompoundStmt
  | CXCursor_StringLiteral
  | CXCursor_TranslationUnit
  | CXCursor_Other nat

datatype CXCursor =
  Cursor (cursorKind: CXCursorKind) (cursorSpelling: string) (cursorChildren: "CXCursor list")

section \<open>Undefined behaviour as an error value\<close>

text \<open>
  The C code can leave defined behaviour in three ways: an access to \<^verbatim>\<open>nodeStack\<close>
  outside \<^verbatim>\<open>[0, 1024)\<close>, an \<^verbatim>\<open>int\<close> increment or decrement that leaves the 32-bit
  range, and \<^verbatim>\<open>%s\<close> given a null pointer. Each is a branch of the model.
\<close>

datatype ub = OutOfBounds | SignedOverflow | NullString

definition INT_MAX :: int where
  "INT_MAX = 2147483647"

definition INT_MIN :: int where
  "INT_MIN = - 2147483648"

definition incr :: "int \<Rightarrow> ub + int" where
  "incr x = (if x < INT_MAX then Inr (x + 1) else Inl SignedOverflow)"

definition decr :: "int \<Rightarrow> ub + int" where
  "decr x = (if INT_MIN < x then Inr (x - 1) else Inl SignedOverflow)"

text \<open>
  \<^verbatim>\<open>int nodeStack[1024]\<close> is a list that always has 1024 entries: it starts as 1024
  zeros and an update never changes the length. An index outside \<^verbatim>\<open>[0, 1024)\<close> is
  not an access to the list but undefined behaviour.
\<close>

definition STACK_SIZE :: int where
  "STACK_SIZE = 1024"

definition array_read :: "int list \<Rightarrow> int \<Rightarrow> ub + int" where
  "array_read a i = (if 0 \<le> i \<and> i < STACK_SIZE then Inr (a ! nat i) else Inl OutOfBounds)"

definition array_write :: "int list \<Rightarrow> int \<Rightarrow> int \<Rightarrow> ub + int list" where
  "array_write a i v = (if 0 \<le> i \<and> i < STACK_SIZE then Inr (a[nat i := v]) else Inl OutOfBounds)"

definition ub_bind :: "ub + 'a \<Rightarrow> ('a \<Rightarrow> ub + 'b) \<Rightarrow> ub + 'b" where
  "ub_bind r f = (case r of Inl e \<Rightarrow> Inl e | Inr x \<Rightarrow> f x)"

section \<open>The DOT file\<close>

text \<open>
  Every \<^verbatim>\<open>fprintf\<close> to \<^verbatim>\<open>dotFile\<close> writes one statement. The file is kept as the
  sequence of statements written so far; \<open>render\<close> gives the text of each, character
  for character as the format strings of \<^verbatim>\<open>Main.c\<close> produce it.
\<close>

datatype dot_stmt =
    GraphOpen
  | NodeStmt int string
  | EdgeStmt int int
  | GraphClose

fun digits :: "nat \<Rightarrow> string" where
  "digits n = (if n < 10 then [char_of (48 + n)] else digits (n div 10) @ [char_of (48 + n mod 10)])"

definition show_int :: "int \<Rightarrow> string" where
  "show_int i = (if i < 0 then CHR ''-'' # digits (nat (- i)) else digits (nat i))"

definition dquote :: char where
  "dquote = CHR 0x22"

definition newline :: char where
  "newline = CHR 0x0A"

fun render :: "dot_stmt \<Rightarrow> string" where
  "render GraphOpen = ''digraph G {'' @ [newline]"
| "render (NodeStmt nodeId label) =
     ''  node'' @ show_int nodeId @ '' [label='' @ [dquote] @ label @ [dquote] @ ''];'' @ [newline]"
| "render (EdgeStmt parentId nodeId) =
     ''  node'' @ show_int parentId @ '' -> node'' @ show_int nodeId @ '';'' @ [newline]"
| "render GraphClose = ''}'' @ [newline]"

definition file_text :: "dot_stmt list \<Rightarrow> string" where
  "file_text stmts = concat (map render stmts)"

section \<open>The metrics structure and the visitor\<close>

record Metrics =
  cyclomatic :: int
  varDeclCount :: int
  currentLoopDepth :: int
  maxLoopDepth :: int
  dotFile :: "dot_stmt list"
  nodeCounter :: int
  nodeStack :: "int list"
  stackTop :: int

definition isDecision :: "CXCursorKind \<Rightarrow> bool" where
  "isDecision kind \<longleftrightarrow>
     kind = CXCursor_IfStmt \<or> kind = CXCursor_ForStmt \<or> kind = CXCursor_WhileStmt \<or>
     kind = CXCursor_CaseStmt \<or> kind = CXCursor_ConditionalOperator"

definition isLoop :: "CXCursorKind \<Rightarrow> bool" where
  "isLoop kind \<longleftrightarrow> kind = CXCursor_ForStmt \<or> kind = CXCursor_WhileStmt"

text \<open>Lines 20 to 33: allocate the id, write the node statement, write the edge.\<close>

definition emit :: "string \<Rightarrow> Metrics \<Rightarrow> ub + (int \<times> Metrics)" where
  "emit label metrics =
     ub_bind (incr (nodeCounter metrics)) (\<lambda>next.
       let nodeId = nodeCounter metrics;
           m1 = metrics\<lparr>nodeCounter := next,
                        dotFile := dotFile metrics @ [NodeStmt nodeId label]\<rparr>
       in if stackTop m1 > 0
          then ub_bind (array_read (nodeStack m1) (stackTop m1 - 1)) (\<lambda>parentId.
                 Inr (nodeId, m1\<lparr>dotFile := dotFile m1 @ [EdgeStmt parentId nodeId]\<rparr>))
          else Inr (nodeId, m1))"

text \<open>Line 36: \<^verbatim>\<open>metrics->nodeStack[metrics->stackTop++] = nodeId\<close>.\<close>

definition push :: "int \<Rightarrow> Metrics \<Rightarrow> ub + Metrics" where
  "push nodeId metrics =
     ub_bind (array_write (nodeStack metrics) (stackTop metrics) nodeId) (\<lambda>stack.
     ub_bind (incr (stackTop metrics)) (\<lambda>newTop.
       Inr (metrics\<lparr>nodeStack := stack, stackTop := newTop\<rparr>)))"

text \<open>Lines 39 to 58: the counters.\<close>

definition classify :: "CXCursorKind \<Rightarrow> Metrics \<Rightarrow> ub + Metrics" where
  "classify kind metrics =
     ub_bind (if isDecision kind
              then ub_bind (incr (cyclomatic metrics)) (\<lambda>c. Inr (metrics\<lparr>cyclomatic := c\<rparr>))
              else Inr metrics) (\<lambda>m1.
     ub_bind (if kind = CXCursor_VarDecl
              then ub_bind (incr (varDeclCount m1)) (\<lambda>c. Inr (m1\<lparr>varDeclCount := c\<rparr>))
              else Inr m1) (\<lambda>m2.
     if isLoop kind
     then ub_bind (incr (currentLoopDepth m2)) (\<lambda>d.
            let m3 = m2\<lparr>currentLoopDepth := d\<rparr>
            in if currentLoopDepth m3 > maxLoopDepth m3
               then Inr (m3\<lparr>maxLoopDepth := currentLoopDepth m3\<rparr>)
               else Inr m3)
     else Inr m2))"

definition visitor_enter :: "CXCursorKind \<Rightarrow> string \<Rightarrow> Metrics \<Rightarrow> ub + Metrics" where
  "visitor_enter kind label metrics =
     ub_bind (emit label metrics) (\<lambda>(nodeId, m1).
     ub_bind (push nodeId m1) (\<lambda>m2.
     classify kind m2))"

text \<open>Lines 64 to 69: leave the loop, pop the stack.\<close>

definition visitor_leave :: "CXCursorKind \<Rightarrow> Metrics \<Rightarrow> ub + Metrics" where
  "visitor_leave kind metrics =
     ub_bind (if isLoop kind
              then ub_bind (decr (currentLoopDepth metrics)) (\<lambda>d.
                     Inr (metrics\<lparr>currentLoopDepth := d\<rparr>))
              else Inr metrics) (\<lambda>m1.
     ub_bind (decr (stackTop m1)) (\<lambda>newTop.
       Inr (m1\<lparr>stackTop := newTop\<rparr>)))"

text \<open>
  \<^verbatim>\<open>clang_visitChildren\<close> calls the visitor on each child in order; the visitor always
  answers \<^verbatim>\<open>CXChildVisit_Continue\<close>, so libclang goes on to the next sibling and
  never descends by itself: the descent is the visitor's own call at line 61.
\<close>

fun visitor :: "CXCursor \<Rightarrow> Metrics \<Rightarrow> ub + Metrics"
  and clang_visitChildren :: "CXCursor list \<Rightarrow> Metrics \<Rightarrow> ub + Metrics" where
  "visitor (Cursor kind label children) metrics =
     (case visitor_enter kind label metrics of
        Inl e \<Rightarrow> Inl e
      | Inr m1 \<Rightarrow>
          (case clang_visitChildren children m1 of
             Inl e \<Rightarrow> Inl e
           | Inr m2 \<Rightarrow> visitor_leave kind m2))"
| "clang_visitChildren [] metrics = Inr metrics"
| "clang_visitChildren (child # rest) metrics =
     (case visitor child metrics of
        Inl e \<Rightarrow> Inl e
      | Inr m1 \<Rightarrow> clang_visitChildren rest m1)"

section \<open>The program\<close>

text \<open>
  What \<^verbatim>\<open>main\<close> receives from outside: the argument vector (\<^verbatim>\<open>argc\<close> is its
  length), whether \<^verbatim>\<open>fopen("ast.dot", "w")\<close> succeeds (otherwise the text
  \<^verbatim>\<open>perror\<close> prints for \<^verbatim>\<open>errno\<close>), what the parser returns for \<^verbatim>\<open>argv[1]\<close> (the
  root cursor of the translation unit, or nothing when \<^verbatim>\<open>unit == NULL\<close>), and the
  return values of the two \<^verbatim>\<open>system\<close> calls.
\<close>

record env =
  argv :: "string list"
  fopenError :: "string option"
  parseResult :: "CXCursor option"
  dotStatus :: int
  viewerStatus :: int

text \<open>
  What a run leaves behind: the exit status, the lines written to the standard error
  and output streams, and the statements this run wrote to \<^verbatim>\<open>ast.dot\<close>
  (\<open>None\<close> when the run never opened the file; \<^verbatim>\<open>fopen\<close> with mode \<^verbatim>\<open>"w"\<close> creates
  or truncates it, and the stream is flushed by \<^verbatim>\<open>fclose\<close> or, on
  \<^verbatim>\<open>return\<close> from \<^verbatim>\<open>main\<close>, by the exit processing).
\<close>

record outcome =
  exitStatus :: int
  stderr :: "string list"
  stdout :: "string list"
  dotWritten :: "dot_stmt list option"

definition argc :: "env \<Rightarrow> int" where
  "argc e = int (length (argv e))"

text \<open>Lines 101 to 108, with the header of line 86 already in the file.\<close>

definition initialMetrics :: Metrics where
  "initialMetrics =
     \<lparr>cyclomatic = 1, varDeclCount = 0, currentLoopDepth = 0, maxLoopDepth = 0,
      dotFile = [GraphOpen], nodeCounter = 0, nodeStack = replicate 1024 0, stackTop = 0\<rparr>"

text \<open>Line 111: the visitor runs on the children of the root cursor, not on the root.\<close>

definition traverse :: "CXCursor \<Rightarrow> ub + Metrics" where
  "traverse rootCursor = clang_visitChildren (cursorChildren rootCursor) initialMetrics"

definition report :: "Metrics \<Rightarrow> string list" where
  "report metrics =
     [''Cyclomatic Complexity: '' @ show_int (cyclomatic metrics) @ [newline],
      ''Estimated Time Complexity: O(n^'' @ show_int (maxLoopDepth metrics) @
        '') based on max loop nesting depth'' @ [newline],
      ''Estimated Space Complexity: O(n) with '' @ show_int (varDeclCount metrics) @
        '' variable declarations'' @ [newline]]"

definition warnings :: "env \<Rightarrow> string list" where
  "warnings e =
     (if dotStatus e \<noteq> 0 then [''Failed to convert DOT to SVG.'' @ [newline]] else []) @
     (if viewerStatus e \<noteq> 0 then [''Failed to launch or delete the SVG file.'' @ [newline]] else [])"

definition main :: "env \<Rightarrow> ub + outcome" where
  "main e =
     (if argc e < 2 then
        (case argv e of
           [] \<Rightarrow> Inl NullString
         | prog # _ \<Rightarrow>
             Inr \<lparr>exitStatus = 1,
                  stderr = [''Usage: '' @ prog @ '' <source-file.c>'' @ [newline]],
                  stdout = [], dotWritten = None\<rparr>)
      else
        (case fopenError e of
           Some msg \<Rightarrow>
             Inr \<lparr>exitStatus = 1, stderr = [''fopen: '' @ msg @ [newline]],
                  stdout = [], dotWritten = None\<rparr>
         | None \<Rightarrow>
             (case parseResult e of
                None \<Rightarrow>
                  Inr \<lparr>exitStatus = 1,
                       stderr = [''Unable to parse translation unit!'' @ [newline]],
                       stdout = [], dotWritten = Some [GraphOpen]\<rparr>
              | Some rootCursor \<Rightarrow>
                  (case traverse rootCursor of
                     Inl u \<Rightarrow> Inl u
                   | Inr metrics \<Rightarrow>
                       Inr \<lparr>exitStatus = 0, stderr = warnings e, stdout = report metrics,
                            dotWritten = Some (dotFile metrics @ [GraphClose])\<rparr>))))"

section \<open>The tree as the specification speaks of it\<close>

text \<open>
  The definitions of this section do not come from \<^verbatim>\<open>Main.c\<close>: they say, in the
  words of the specification, what is counted and numbered, and the theorems compare
  the visitor with them.
\<close>

text \<open>The visited nodes, in pre-order.\<close>

fun preorder :: "CXCursor \<Rightarrow> CXCursor list"
  and preorderList :: "CXCursor list \<Rightarrow> CXCursor list" where
  "preorder (Cursor kind label children) = Cursor kind label children # preorderList children"
| "preorderList [] = []"
| "preorderList (child # rest) = preorder child @ preorderList rest"

definition visitedNodes :: "CXCursor \<Rightarrow> CXCursor list" where
  "visitedNodes rootCursor = preorderList (cursorChildren rootCursor)"

definition countKind :: "(CXCursorKind \<Rightarrow> bool) \<Rightarrow> CXCursor list \<Rightarrow> int" where
  "countKind P nodes = int (length (filter (\<lambda>c. P (cursorKind c)) nodes))"

text \<open>
  The greatest number of visited nodes on a path from a top-level node downwards, that
  is, the depth of the input tree counted in edges from the root cursor.
\<close>

fun height :: "CXCursor \<Rightarrow> nat"
  and heightList :: "CXCursor list \<Rightarrow> nat" where
  "height (Cursor kind label children) = Suc (heightList children)"
| "heightList [] = 0"
| "heightList (child # rest) = max (height child) (heightList rest)"

definition depth :: "CXCursor \<Rightarrow> nat" where
  "depth rootCursor = heightList (cursorChildren rootCursor)"

text \<open>
  For every visited node, the kinds on the path to it: those of its visited ancestors,
  outermost first, then its own.
\<close>

fun paths :: "CXCursorKind list \<Rightarrow> CXCursor \<Rightarrow> CXCursorKind list list"
  and pathsList :: "CXCursorKind list \<Rightarrow> CXCursor list \<Rightarrow> CXCursorKind list list" where
  "paths anc (Cursor kind label children) = (anc @ [kind]) # pathsList (anc @ [kind]) children"
| "pathsList anc [] = []"
| "pathsList anc (child # rest) = paths anc child @ pathsList anc rest"

text \<open>The number of loop-kind nodes on a path, the node itself included.\<close>

definition loopNesting :: "CXCursorKind list \<Rightarrow> int" where
  "loopNesting path = int (length (filter isLoop path))"

definition loopNestings :: "CXCursorKind list list \<Rightarrow> int list" where
  "loopNestings ps = map loopNesting (filter (\<lambda>p. isLoop (last p)) ps)"

definition specMaxLoopDepth :: "CXCursor \<Rightarrow> int" where
  "specMaxLoopDepth rootCursor =
     Max (set (0 # loopNestings (pathsList [] (cursorChildren rootCursor))))"

text \<open>
  Pre-order numbering from \<open>n\<close>: the node statements, and the pairs of a parent's number
  and a child's number.
\<close>

fun nodeRecords :: "int \<Rightarrow> CXCursor list \<Rightarrow> (int \<times> string) list" where
  "nodeRecords n [] = []"
| "nodeRecords n (c # cs) = (n, cursorSpelling c) # nodeRecords (n + 1) cs"

fun parentChildPairs :: "int \<Rightarrow> CXCursor \<Rightarrow> (int \<times> int) list"
  and childPairs :: "int \<Rightarrow> int \<Rightarrow> CXCursor list \<Rightarrow> (int \<times> int) list" where
  "parentChildPairs n (Cursor kind label children) = childPairs n (n + 1) children"
| "childPairs p n [] = []"
| "childPairs p n (child # rest) =
     (p, n) # parentChildPairs n child @ childPairs p (n + int (length (preorder child))) rest"

fun forestPairs :: "int \<Rightarrow> CXCursor list \<Rightarrow> (int \<times> int) list" where
  "forestPairs n [] = []"
| "forestPairs n (tree # rest) =
     parentChildPairs n tree @ forestPairs (n + int (length (preorder tree))) rest"

text \<open>Reading the statements back from the file.\<close>

fun nodeStmts :: "dot_stmt list \<Rightarrow> (int \<times> string) list" where
  "nodeStmts [] = []"
| "nodeStmts (NodeStmt n l # rest) = (n, l) # nodeStmts rest"
| "nodeStmts (_ # rest) = nodeStmts rest"

fun edgeStmts :: "dot_stmt list \<Rightarrow> (int \<times> int) list" where
  "edgeStmts [] = []"
| "edgeStmts (EdgeStmt p n # rest) = (p, n) # edgeStmts rest"
| "edgeStmts (_ # rest) = edgeStmts rest"

section \<open>Notions used in the proofs\<close>

text \<open>
  The state right after lines 20 to 58 of a visit that stays within defined behaviour,
  the state right after lines 64 to 69, and the conditions for staying within it.
\<close>

definition edgeFor :: "Metrics \<Rightarrow> dot_stmt list" where
  "edgeFor m = (if stackTop m > 0 then [EdgeStmt (nodeStack m ! nat (stackTop m - 1)) (nodeCounter m)] else [])"

definition counted :: "CXCursorKind \<Rightarrow> Metrics \<Rightarrow> Metrics" where
  "counted kind m =
     m\<lparr>cyclomatic := cyclomatic m + (if isDecision kind then 1 else 0),
       varDeclCount := varDeclCount m + (if kind = CXCursor_VarDecl then 1 else 0),
       currentLoopDepth := currentLoopDepth m + (if isLoop kind then 1 else 0),
       maxLoopDepth := (if isLoop kind then max (maxLoopDepth m) (currentLoopDepth m + 1)
                        else maxLoopDepth m)\<rparr>"

definition entered :: "CXCursorKind \<Rightarrow> string \<Rightarrow> Metrics \<Rightarrow> Metrics" where
  "entered kind label m =
     counted kind
       (m\<lparr>nodeCounter := nodeCounter m + 1,
          dotFile := dotFile m @ NodeStmt (nodeCounter m) label # edgeFor m,
          nodeStack := (nodeStack m)[nat (stackTop m) := nodeCounter m],
          stackTop := stackTop m + 1\<rparr>)"

definition canEnter :: "CXCursorKind \<Rightarrow> Metrics \<Rightarrow> bool" where
  "canEnter kind m \<longleftrightarrow>
     nodeCounter m < INT_MAX \<and> 0 \<le> stackTop m \<and> stackTop m < 1024 \<and>
     (isDecision kind \<longrightarrow> cyclomatic m < INT_MAX) \<and>
     (kind = CXCursor_VarDecl \<longrightarrow> varDeclCount m < INT_MAX) \<and>
     (isLoop kind \<longrightarrow> currentLoopDepth m < INT_MAX)"

definition left :: "CXCursorKind \<Rightarrow> Metrics \<Rightarrow> Metrics" where
  "left kind m =
     m\<lparr>currentLoopDepth := currentLoopDepth m - (if isLoop kind then 1 else 0),
       stackTop := stackTop m - 1\<rparr>"

definition canLeave :: "CXCursorKind \<Rightarrow> Metrics \<Rightarrow> bool" where
  "canLeave kind m \<longleftrightarrow> (isLoop kind \<longrightarrow> INT_MIN < currentLoopDepth m) \<and> INT_MIN < stackTop m"

definition fits :: "int \<Rightarrow> Metrics \<Rightarrow> bool" where
  "fits n m \<longleftrightarrow>
     0 \<le> stackTop m \<and> nodeCounter m + n \<le> INT_MAX \<and> cyclomatic m + n \<le> INT_MAX \<and>
     varDeclCount m + n \<le> INT_MAX \<and> currentLoopDepth m + n \<le> INT_MAX \<and>
     INT_MIN \<le> currentLoopDepth m"

section \<open>Sample translation units\<close>

text \<open>
  A unit with a function (a declaration, then an \<^verbatim>\<open>if\<close> holding a \<^verbatim>\<open>for\<close> that
  holds a \<^verbatim>\<open>while\<close>) followed by a global variable, and the metrics structure the
  traversal ends with on it.
\<close>

definition exampleUnit :: CXCursor where
  "exampleUnit =
     Cursor CXCursor_TranslationUnit ''t.c''
       [Cursor CXCursor_FunctionDecl ''f''
          [Cursor CXCursor_CompoundStmt ''''
             [Cursor CXCursor_VarDecl ''x'' [],
              Cursor CXCursor_IfStmt ''''
                [Cursor CXCursor_ForStmt '''' [Cursor CXCursor_WhileStmt '''' []]]]],
        Cursor CXCursor_VarDecl ''g'' []]"

definition exampleFinal :: Metrics where
  "exampleFinal =
     \<lparr>cyclomatic = 4, varDeclCount = 2, currentLoopDepth = 0, maxLoopDepth = 2,
      dotFile =
        [GraphOpen, NodeStmt 0 ''f'', NodeStmt 1 [], EdgeStmt 0 1, NodeStmt 2 ''x'',
         EdgeStmt 1 2, NodeStmt 3 [], EdgeStmt 1 3, NodeStmt 4 [], EdgeStmt 3 4,
         NodeStmt 5 [], EdgeStmt 4 5, NodeStmt 6 ''g''],
      nodeCounter = 7,
      nodeStack = [6, 1, 3, 4, 5] @ replicate 1019 0,
      stackTop = 0\<rparr>"

text \<open>A \<^verbatim>\<open>for\<close> statement with nothing below it, and the structure after visiting it first.\<close>

definition loneLoop :: CXCursor where
  "loneLoop = Cursor CXCursor_ForStmt '''' []"

definition loneLoopVisited :: Metrics where
  "loneLoopVisited =
     \<lparr>cyclomatic = 2, varDeclCount = 0, currentLoopDepth = 0, maxLoopDepth = 1,
      dotFile = [GraphOpen, NodeStmt 0 ''''], nodeCounter = 1,
      nodeStack = replicate 1024 0, stackTop = 0\<rparr>"

text \<open>Two global variables and nothing else.\<close>

definition twoDecls :: CXCursor where
  "twoDecls =
     Cursor CXCursor_TranslationUnit ''t.c''
       [Cursor CXCursor_VarDecl ''a'' [], Cursor CXCursor_VarDecl ''b'' []]"

definition twoDeclsFinal :: Metrics where
  "twoDeclsFinal =
     \<lparr>cyclomatic = 1, varDeclCount = 2, currentLoopDepth = 0, maxLoopDepth = 0,
      dotFile = [GraphOpen, NodeStmt 0 ''a'', NodeStmt 1 ''b''],
      nodeCounter = 2, nodeStack = 1 # replicate 1023 0, stackTop = 0\<rparr>"

section \<open>Sample runs\<close>

text \<open>
  A run on the sample unit in which both external commands fail, and a run in which the
  parser returns no translation unit.
\<close>

definition exampleRun :: env where
  "exampleRun =
     \<lparr>argv = [''analyzer'', ''t.c''], fopenError = None, parseResult = Some exampleUnit,
      dotStatus = 1, viewerStatus = 1\<rparr>"

definition exampleOutcome :: outcome where
  "exampleOutcome =
     \<lparr>exitStatus = 0,
      stderr = [''Failed to convert DOT to SVG.'' @ [newline],
                ''Failed to launch or delete the SVG file.'' @ [newline]],
      stdout = [''Cyclomatic Complexity: 4'' @ [newline],
                ''Estimated Time Complexity: O(n^2) based on max loop nesting depth'' @ [newline],
                ''Estimated Space Complexity: O(n) with 2 variable declarations'' @ [newline]],
      dotWritten = Some (dotFile exampleFinal @ [GraphClose])\<rparr>"

definition parseFailure :: env where
  "parseFailure =
     \<lparr>argv = [''analyzer'', ''broken.c''], fopenError = None, parseResult = None,
      dotStatus = 0, viewerStatus = 0\<rparr>"

definition parseFailureOutcome :: outcome where
  "parseFailureOutcome =
     \<lparr>exitStatus = 1, stderr = [''Unable to parse translation unit!'' @ [newline]],
      stdout = [], dotWritten = Some [GraphOpen]\<rparr>"

section \<open>Quoted strings of the DOT language\<close>

text \<open>
  The file is read by \<^verbatim>\<open>dot\<close> (line 118). In its language a double-quoted string
  runs up to the next double quote that is not escaped by a backslash. \<open>quotedEnd\<close>
  scans from just behind the opening quote and returns what follows the closing one;
  a node statement is well formed when the string opened after \<^verbatim>\<open>label=\<close> closes
  right before \<^verbatim>\<open>];\<close>.
\<close>

definition backslash :: char where
  "backslash = CHR 0x5C"

fun quotedEnd :: "string \<Rightarrow> string option" where
  "quotedEnd [] = None"
| "quotedEnd (c # cs) =
     (if c = dquote then Some cs
      else if c = backslash then (case cs of [] \<Rightarrow> None | _ # rest \<Rightarrow> quotedEnd rest)
      else quotedEnd cs)"

definition nodeStmtWellFormed :: "int \<Rightarrow> string \<Rightarrow> bool" where
  "nodeStmtWellFormed nodeId label \<longleftrightarrow>
     quotedEnd (drop (length (''  node'' @ show_int nodeId @ '' [label='' @ [dquote]))
                  (render (NodeStmt nodeId label)))
       = Some (''];'' @ [newline])"

text \<open>
  The declaration \<^verbatim>\<open>const char *s = "hi";\<close>: the spelling of a string literal is its
  source text, quotes included.
\<close>

definition quotedHi :: string where
  "quotedHi = [dquote] @ ''hi'' @ [dquote]"

definition literalUnit :: CXCursor where
  "literalUnit =
     Cursor CXCursor_TranslationUnit ''t.c''
       [Cursor CXCursor_VarDecl ''s'' [Cursor CXCursor_StringLiteral quotedHi []]]"

definition literalFinal :: Metrics where
  "literalFinal =
     \<lparr>cyclomatic = 1, varDeclCount = 1, currentLoopDepth = 0, maxLoopDepth = 0,
      dotFile = [GraphOpen, NodeStmt 0 ''s'', NodeStmt 1 quotedHi, EdgeStmt 0 1],
      nodeCounter = 2, nodeStack = [0, 1] @ replicate 1022 0, stackTop = 0\<rparr>"

text \<open>A function whose body is 1024 blocks, each inside the one before.\<close>

fun chain :: "nat \<Rightarrow> CXCursor" where
  "chain 0 = Cursor CXCursor_CompoundStmt '''' []"
| "chain (Suc n) = Cursor CXCursor_CompoundStmt '''' [chain n]"

definition deepUnit :: CXCursor where
  "deepUnit =
     Cursor CXCursor_TranslationUnit ''deep.c'' [Cursor CXCursor_FunctionDecl ''f'' [chain 1023]]"

section \<open>One visit, step by step\<close>

lemma ub_bind_Inr: "ub_bind r f = Inr y \<longleftrightarrow> (\<exists>x. r = Inr x \<and> f x = Inr y)"
  by (cases r) (simp_all add: ub_bind_def)

lemma incr_Inr: "incr x = Inr y \<longleftrightarrow> x < INT_MAX \<and> y = x + 1"
  by (auto simp: incr_def)

lemma decr_Inr: "decr x = Inr y \<longleftrightarrow> INT_MIN < x \<and> y = x - 1"
  by (auto simp: decr_def)

lemma array_read_Inr: "array_read a i = Inr v \<longleftrightarrow> 0 \<le> i \<and> i < 1024 \<and> v = a ! nat i"
  by (auto simp: array_read_def STACK_SIZE_def)

lemma array_write_Inr: "array_write a i v = Inr b \<longleftrightarrow> 0 \<le> i \<and> i < 1024 \<and> b = a[nat i := v]"
  by (auto simp: array_write_def STACK_SIZE_def)

lemma emit_Inr:
  "emit label m = Inr (n, m1) \<longleftrightarrow>
     nodeCounter m < INT_MAX \<and> stackTop m \<le> 1024 \<and> n = nodeCounter m \<and>
     m1 = m\<lparr>nodeCounter := nodeCounter m + 1,
            dotFile := dotFile m @ NodeStmt (nodeCounter m) label # edgeFor m\<rparr>"
  by (auto simp: emit_def ub_bind_Inr incr_Inr array_read_Inr Let_def edgeFor_def)

lemma push_Inr:
  "push n m = Inr m1 \<longleftrightarrow>
     0 \<le> stackTop m \<and> stackTop m < 1024 \<and>
     m1 = m\<lparr>nodeStack := (nodeStack m)[nat (stackTop m) := n], stackTop := stackTop m + 1\<rparr>"
  by (auto simp: push_def ub_bind_Inr incr_Inr array_write_Inr INT_MAX_def)

lemma classify_Inr:
  "classify kind m = Inr m1 \<longleftrightarrow>
     (isDecision kind \<longrightarrow> cyclomatic m < INT_MAX) \<and>
     (kind = CXCursor_VarDecl \<longrightarrow> varDeclCount m < INT_MAX) \<and>
     (isLoop kind \<longrightarrow> currentLoopDepth m < INT_MAX) \<and>
     m1 = counted kind m"
  by (auto simp: classify_def ub_bind_Inr incr_Inr Let_def counted_def max_def)

lemma visitor_enter_Inr:
  "visitor_enter kind label m = Inr m1 \<longleftrightarrow> canEnter kind m \<and> m1 = entered kind label m"
  by (auto simp: visitor_enter_def ub_bind_Inr emit_Inr push_Inr classify_Inr canEnter_def
      entered_def counted_def)

lemma visitor_leave_Inr:
  "visitor_leave kind m = Inr m1 \<longleftrightarrow> canLeave kind m \<and> m1 = left kind m"
  by (auto simp: visitor_leave_def ub_bind_Inr decr_Inr canLeave_def left_def)

lemma visitor_Inr:
  "visitor (Cursor kind label children) m = Inr m' \<longleftrightarrow>
     canEnter kind m \<and>
     (\<exists>m2. clang_visitChildren children (entered kind label m) = Inr m2 \<and>
           canLeave kind m2 \<and> m' = left kind m2)"
proof (cases "visitor_enter kind label m")
  case (Inl e)
  with visitor_enter_Inr [of kind label m "entered kind label m"] show ?thesis
    by simp
next
  case (Inr m1)
  then have c: "canEnter kind m" and m1: "m1 = entered kind label m"
    by (simp_all add: visitor_enter_Inr)
  have "visitor (Cursor kind label children) m =
        (case clang_visitChildren children m1 of
           Inl e \<Rightarrow> Inl e | Inr m2 \<Rightarrow> visitor_leave kind m2)"
    by (simp add: Inr)
  with c m1 show ?thesis
    by (cases "clang_visitChildren children (entered kind label m)")
      (auto simp: visitor_leave_Inr)
qed

lemma visitChildren_Cons_Inr:
  "clang_visitChildren (child # rest) m = Inr m' \<longleftrightarrow>
     (\<exists>m1. visitor child m = Inr m1 \<and> clang_visitChildren rest m1 = Inr m')"
  by (cases "visitor child m") simp_all

lemma entered_simps:
  "nodeCounter (entered kind label m) = nodeCounter m + 1"
  "stackTop (entered kind label m) = stackTop m + 1"
  "nodeStack (entered kind label m) = (nodeStack m)[nat (stackTop m) := nodeCounter m]"
  "dotFile (entered kind label m) = dotFile m @ NodeStmt (nodeCounter m) label # edgeFor m"
  "cyclomatic (entered kind label m) = cyclomatic m + (if isDecision kind then 1 else 0)"
  "varDeclCount (entered kind label m) =
     varDeclCount m + (if kind = CXCursor_VarDecl then 1 else 0)"
  "currentLoopDepth (entered kind label m) = currentLoopDepth m + (if isLoop kind then 1 else 0)"
  "maxLoopDepth (entered kind label m) =
     (if isLoop kind then max (maxLoopDepth m) (currentLoopDepth m + 1) else maxLoopDepth m)"
  by (simp_all add: entered_def counted_def)

lemma left_simps:
  "nodeCounter (left kind m) = nodeCounter m"
  "stackTop (left kind m) = stackTop m - 1"
  "nodeStack (left kind m) = nodeStack m"
  "dotFile (left kind m) = dotFile m"
  "cyclomatic (left kind m) = cyclomatic m"
  "varDeclCount (left kind m) = varDeclCount m"
  "currentLoopDepth (left kind m) = currentLoopDepth m - (if isLoop kind then 1 else 0)"
  "maxLoopDepth (left kind m) = maxLoopDepth m"
  by (simp_all add: left_def)

text \<open>What a completed visit leaves as it found it, and how far the id allocator moved.\<close>

lemma frame:
  "visitor c m = Inr m' \<Longrightarrow>
     nodeCounter m' = nodeCounter m + int (length (preorder c)) \<and>
     stackTop m' = stackTop m \<and> currentLoopDepth m' = currentLoopDepth m \<and>
     length (nodeStack m') = length (nodeStack m) \<and>
     (\<forall>i. i < nat (stackTop m) \<longrightarrow> nodeStack m' ! i = nodeStack m ! i)"
  "clang_visitChildren cs m = Inr m' \<Longrightarrow>
     nodeCounter m' = nodeCounter m + int (length (preorderList cs)) \<and>
     stackTop m' = stackTop m \<and> currentLoopDepth m' = currentLoopDepth m \<and>
     length (nodeStack m') = length (nodeStack m) \<and>
     (\<forall>i. i < nat (stackTop m) \<longrightarrow> nodeStack m' ! i = nodeStack m ! i)"
proof (induction c m and cs m arbitrary: m' and m' rule: visitor_clang_visitChildren.induct)
  case (1 kind label children metrics)
  from "1.prems" obtain m2 where
    enter: "canEnter kind metrics" and
    kids: "clang_visitChildren children (entered kind label metrics) = Inr m2" and
    m': "m' = left kind m2"
    unfolding visitor_Inr by auto
  from enter have e: "visitor_enter kind label metrics = Inr (entered kind label metrics)"
    by (simp add: visitor_enter_Inr)
  note ih = "1.IH" [OF e kids]
  from enter have top: "0 \<le> stackTop metrics" by (simp add: canEnter_def)
  with ih m' show ?case
    by (simp add: entered_simps left_simps nat_add_distrib)
next
  case (2 metrics)
  then show ?case by simp
next
  case (3 child rest metrics)
  from "3.prems" obtain m1 where
    first: "visitor child metrics = Inr m1" and rest: "clang_visitChildren rest m1 = Inr m'"
    unfolding visitChildren_Cons_Inr by auto
  from "3.IH"(1) [OF first] "3.IH"(2) [OF first rest] show ?case
    by simp
qed

lemma countKind_simps:
  "countKind P [] = 0"
  "countKind P (c # cs) = (if P (cursorKind c) then 1 else 0) + countKind P cs"
  "countKind P (xs @ ys) = countKind P xs + countKind P ys"
  by (simp_all add: countKind_def)

lemma counts:
  "visitor c m = Inr m' \<Longrightarrow>
     cyclomatic m' = cyclomatic m + countKind isDecision (preorder c) \<and>
     varDeclCount m' = varDeclCount m + countKind (\<lambda>k. k = CXCursor_VarDecl) (preorder c)"
  "clang_visitChildren cs m = Inr m' \<Longrightarrow>
     cyclomatic m' = cyclomatic m + countKind isDecision (preorderList cs) \<and>
     varDeclCount m' = varDeclCount m + countKind (\<lambda>k. k = CXCursor_VarDecl) (preorderList cs)"
proof (induction c m and cs m arbitrary: m' and m' rule: visitor_clang_visitChildren.induct)
  case (1 kind label children metrics)
  from "1.prems" obtain m2 where
    enter: "canEnter kind metrics" and
    kids: "clang_visitChildren children (entered kind label metrics) = Inr m2" and
    m': "m' = left kind m2"
    unfolding visitor_Inr by auto
  from enter have e: "visitor_enter kind label metrics = Inr (entered kind label metrics)"
    by (simp add: visitor_enter_Inr)
  from "1.IH" [OF e kids] m' show ?case
    by (simp add: entered_simps left_simps countKind_simps)
next
  case (2 metrics)
  then show ?case by (simp add: countKind_simps)
next
  case (3 child rest metrics)
  from "3.prems" obtain m1 where
    first: "visitor child metrics = Inr m1" and rest: "clang_visitChildren rest m1 = Inr m'"
    unfolding visitChildren_Cons_Inr by auto
  from "3.IH"(1) [OF first] "3.IH"(2) [OF first rest] show ?case
    by (simp add: countKind_simps)
qed

lemma loopNestings_simps:
  "loopNestings [] = []"
  "loopNestings (p # ps) = (if isLoop (last p) then [loopNesting p] else []) @ loopNestings ps"
  "loopNestings (ps @ qs) = loopNestings ps @ loopNestings qs"
  by (simp_all add: loopNestings_def)

lemma loopNesting_snoc:
  "loopNesting (anc @ [kind]) = loopNesting anc + (if isLoop kind then 1 else 0)"
  by (simp add: loopNesting_def)

lemma high_water:
  "visitor c m = Inr m' \<Longrightarrow> currentLoopDepth m = loopNesting anc \<Longrightarrow>
     maxLoopDepth m' = fold max (loopNestings (paths anc c)) (maxLoopDepth m)"
  "clang_visitChildren cs m = Inr m' \<Longrightarrow> currentLoopDepth m = loopNesting anc \<Longrightarrow>
     maxLoopDepth m' = fold max (loopNestings (pathsList anc cs)) (maxLoopDepth m)"
proof (induction c m and cs m arbitrary: m' anc and m' anc
    rule: visitor_clang_visitChildren.induct)
  case (1 kind label children metrics)
  from "1.prems"(1) obtain m2 where
    enter: "canEnter kind metrics" and
    kids: "clang_visitChildren children (entered kind label metrics) = Inr m2" and
    m': "m' = left kind m2"
    unfolding visitor_Inr by auto
  from enter have e: "visitor_enter kind label metrics = Inr (entered kind label metrics)"
    by (simp add: visitor_enter_Inr)
  have d: "currentLoopDepth (entered kind label metrics) = loopNesting (anc @ [kind])"
    using "1.prems"(2) by (simp add: entered_simps loopNesting_snoc)
  from "1.IH" [OF e kids d] m' "1.prems"(2) show ?case
    by (simp add: entered_simps left_simps loopNestings_simps loopNesting_snoc max.commute)
next
  case (2 metrics)
  then show ?case by (simp add: loopNestings_simps)
next
  case (3 child rest metrics)
  from "3.prems"(1) obtain m1 where
    first: "visitor child metrics = Inr m1" and rest: "clang_visitChildren rest m1 = Inr m'"
    unfolding visitChildren_Cons_Inr by auto
  from frame(1) [OF first] "3.prems"(2) have d: "currentLoopDepth m1 = loopNesting anc"
    by simp
  from "3.IH"(1) [OF first "3.prems"(2)] "3.IH"(2) [OF first rest d] show ?case
    by (simp add: loopNestings_simps)
qed

lemma nodeStmts_append: "nodeStmts (xs @ ys) = nodeStmts xs @ nodeStmts ys"
  by (induction xs rule: nodeStmts.induct) simp_all

lemma edgeStmts_append: "edgeStmts (xs @ ys) = edgeStmts xs @ edgeStmts ys"
  by (induction xs rule: edgeStmts.induct) simp_all

lemma nodeStmts_edgeFor: "nodeStmts (edgeFor m) = []"
  by (simp add: edgeFor_def)

lemma edgeStmts_edgeFor:
  "edgeStmts (edgeFor m) =
     (if stackTop m > 0 then [(nodeStack m ! nat (stackTop m - 1), nodeCounter m)] else [])"
  by (simp add: edgeFor_def)

lemma nodeRecords_append:
  "nodeRecords n (xs @ ys) = nodeRecords n xs @ nodeRecords (n + int (length xs)) ys"
  by (induction xs arbitrary: n) (simp_all add: add.assoc)

lemma node_statements:
  "visitor c m = Inr m' \<Longrightarrow>
     nodeStmts (dotFile m') = nodeStmts (dotFile m) @ nodeRecords (nodeCounter m) (preorder c)"
  "clang_visitChildren cs m = Inr m' \<Longrightarrow>
     nodeStmts (dotFile m') = nodeStmts (dotFile m) @ nodeRecords (nodeCounter m) (preorderList cs)"
proof (induction c m and cs m arbitrary: m' and m' rule: visitor_clang_visitChildren.induct)
  case (1 kind label children metrics)
  from "1.prems" obtain m2 where
    enter: "canEnter kind metrics" and
    kids: "clang_visitChildren children (entered kind label metrics) = Inr m2" and
    m': "m' = left kind m2"
    unfolding visitor_Inr by auto
  from enter have e: "visitor_enter kind label metrics = Inr (entered kind label metrics)"
    by (simp add: visitor_enter_Inr)
  from "1.IH" [OF e kids] m' show ?case
    by (simp add: entered_simps left_simps nodeStmts_append nodeStmts_edgeFor)
next
  case (2 metrics)
  then show ?case by simp
next
  case (3 child rest metrics)
  from "3.prems" obtain m1 where
    first: "visitor child metrics = Inr m1" and rest: "clang_visitChildren rest m1 = Inr m'"
    unfolding visitChildren_Cons_Inr by auto
  from "3.IH"(1) [OF first] "3.IH"(2) [OF first rest] frame(1) [OF first] show ?case
    by (simp add: nodeRecords_append)
qed

lemma edge_statements:
  "visitor c m = Inr m' \<Longrightarrow> length (nodeStack m) = 1024 \<Longrightarrow>
     edgeStmts (dotFile m') =
       edgeStmts (dotFile m) @ edgeStmts (edgeFor m) @ parentChildPairs (nodeCounter m) c"
  "clang_visitChildren cs m = Inr m' \<Longrightarrow> length (nodeStack m) = 1024 \<Longrightarrow>
     edgeStmts (dotFile m') =
       edgeStmts (dotFile m) @
       (if stackTop m > 0
        then childPairs (nodeStack m ! nat (stackTop m - 1)) (nodeCounter m) cs
        else forestPairs (nodeCounter m) cs)"
proof (induction c m and cs m arbitrary: m' and m' rule: visitor_clang_visitChildren.induct)
  case (1 kind label children metrics)
  from "1.prems"(1) obtain m2 where
    enter: "canEnter kind metrics" and
    kids: "clang_visitChildren children (entered kind label metrics) = Inr m2" and
    m': "m' = left kind m2"
    unfolding visitor_Inr by auto
  from enter have e: "visitor_enter kind label metrics = Inr (entered kind label metrics)"
    by (simp add: visitor_enter_Inr)
  from enter have top: "0 \<le> stackTop metrics" "nat (stackTop metrics) < 1024"
    by (auto simp: canEnter_def)
  have len: "length (nodeStack (entered kind label metrics)) = 1024"
    using "1.prems"(2) by (simp add: entered_simps)
  from "1.IH" [OF e kids len] m' top "1.prems"(2) show ?case
    by (simp add: entered_simps left_simps edgeStmts_append)
next
  case (2 metrics)
  then show ?case by simp
next
  case (3 child rest metrics)
  from "3.prems"(1) obtain m1 where
    first: "visitor child metrics = Inr m1" and rest: "clang_visitChildren rest m1 = Inr m'"
    unfolding visitChildren_Cons_Inr by auto
  note f = frame(1) [OF first]
  from f "3.prems"(2) have len: "length (nodeStack m1) = 1024"
    by simp
  have same: "0 < stackTop metrics \<Longrightarrow>
      nodeStack m1 ! nat (stackTop metrics - 1) = nodeStack metrics ! nat (stackTop metrics - 1)"
    using f by simp
  from "3.IH"(1) [OF first "3.prems"(2)] "3.IH"(2) [OF first rest len] f same show ?case
    by (simp add: edgeStmts_edgeFor)
qed

lemma countKind_bounds: "0 \<le> countKind P xs" "countKind P xs \<le> int (length xs)"
  by (simp_all add: countKind_def)

lemma fits_enter:
  assumes "fits (1 + n) m" and "0 \<le> n" and "stackTop m < 1024"
  shows "canEnter kind m" and "fits n (entered kind label m)"
  using assms by (auto simp: fits_def canEnter_def entered_simps)

lemma fits_leave:
  assumes "fits n m" and "clang_visitChildren cs (entered kind label m) = Inr m2"
  shows "canLeave kind m2"
  using assms frame(2) [OF assms(2)]
  by (auto simp: fits_def canEnter_def canLeave_def entered_simps INT_MIN_def)

lemma fits_after:
  assumes "visitor c m = Inr m1" and "fits (int (length (preorder c)) + n) m" and "0 \<le> n"
  shows "fits n m1"
  using assms(2,3) frame(1) [OF assms(1)] counts(1) [OF assms(1)]
    countKind_bounds [of isDecision "preorder c"]
    countKind_bounds [of "\<lambda>k. k = CXCursor_VarDecl" "preorder c"]
  by (simp add: fits_def)

lemma fits_after_list:
  assumes "clang_visitChildren cs m = Inr m1" and "fits (int (length (preorderList cs)) + n) m"
    and "0 \<le> n"
  shows "fits n m1"
  using assms(2,3) frame(2) [OF assms(1)] counts(2) [OF assms(1)]
    countKind_bounds [of isDecision "preorderList cs"]
    countKind_bounds [of "\<lambda>k. k = CXCursor_VarDecl" "preorderList cs"]
  by (simp add: fits_def)

lemma completes:
  "fits (int (length (preorder c))) m \<Longrightarrow> stackTop m + int (height c) \<le> 1024 \<Longrightarrow>
     \<exists>m'. visitor c m = Inr m'"
  "fits (int (length (preorderList cs))) m \<Longrightarrow> stackTop m + int (heightList cs) \<le> 1024 \<Longrightarrow>
     \<exists>m'. clang_visitChildren cs m = Inr m'"
proof (induction c m and cs m rule: visitor_clang_visitChildren.induct)
  case (1 kind label children metrics)
  let ?n = "int (length (preorderList children))"
  from "1.prems" have f: "fits (1 + ?n) metrics" and top: "stackTop metrics < 1024"
    by simp_all
  have enter: "canEnter kind metrics" "fits ?n (entered kind label metrics)"
    using fits_enter [OF f _ top] by simp_all
  from enter(1) have e: "visitor_enter kind label metrics = Inr (entered kind label metrics)"
    by (simp add: visitor_enter_Inr)
  from "1.prems"(2) have "stackTop (entered kind label metrics) + int (heightList children) \<le> 1024"
    by (simp add: entered_simps)
  from "1.IH" [OF e enter(2) this] obtain m2 where
    kids: "clang_visitChildren children (entered kind label metrics) = Inr m2" ..
  from fits_leave [OF f kids] enter(1) kids show ?case
    unfolding visitor_Inr by blast
next
  case (2 metrics)
  then show ?case by simp
next
  case (3 child rest metrics)
  from "3.prems" have f: "fits (int (length (preorder child)) + int (length (preorderList rest))) metrics"
    by simp
  then have f1: "fits (int (length (preorder child))) metrics"
    by (simp add: fits_def)
  from "3.prems"(2) have "stackTop metrics + int (height child) \<le> 1024"
    by simp
  from "3.IH"(1) [OF f1 this] obtain m1 where first: "visitor child metrics = Inr m1" ..
  from fits_after [OF first f] have f2: "fits (int (length (preorderList rest))) m1"
    by simp
  from "3.prems"(2) frame(1) [OF first] have "stackTop m1 + int (heightList rest) \<le> 1024"
    by simp
  from "3.IH"(2) [OF first f2 this] first show ?case
    unfolding visitChildren_Cons_Inr by blast
qed

lemma emit_Inl:
  "emit label m = Inl e \<Longrightarrow>
     (e = SignedOverflow \<and> INT_MAX \<le> nodeCounter m) \<or> (e = OutOfBounds \<and> 1024 < stackTop m)"
  by (auto simp: emit_def ub_bind_def incr_def array_read_def STACK_SIZE_def Let_def
      split: if_splits)

lemma push_Inl:
  "push n m = Inl e \<Longrightarrow> e = OutOfBounds \<and> (stackTop m < 0 \<or> 1024 \<le> stackTop m)"
  by (auto simp: push_def ub_bind_def incr_def array_write_def STACK_SIZE_def INT_MAX_def
      split: if_splits)

lemma classify_Inl:
  "classify kind m = Inl e \<Longrightarrow>
     e = SignedOverflow \<and>
     (INT_MAX \<le> cyclomatic m \<or> INT_MAX \<le> varDeclCount m \<or> INT_MAX \<le> currentLoopDepth m)"
  by (auto simp: classify_def ub_bind_def incr_def Let_def split: if_splits)

lemma visitor_enter_Inl:
  assumes "visitor_enter kind label m = Inl e"
  shows "(e = OutOfBounds \<and> (stackTop m < 0 \<or> 1024 \<le> stackTop m)) \<or>
         (e = SignedOverflow \<and>
          (INT_MAX \<le> nodeCounter m \<or> INT_MAX \<le> cyclomatic m \<or>
           INT_MAX \<le> varDeclCount m \<or> INT_MAX \<le> currentLoopDepth m))"
proof (cases "emit label m")
  case (Inl e1)
  with assms have "e1 = e" by (simp add: visitor_enter_def ub_bind_def)
  with emit_Inl [OF Inl] show ?thesis by auto
next
  case (Inr r)
  obtain n m1 where r: "r = (n, m1)" by (cases r)
  from Inr r have m1: "m1 = m\<lparr>nodeCounter := nodeCounter m + 1,
      dotFile := dotFile m @ NodeStmt (nodeCounter m) label # edgeFor m\<rparr>"
    by (simp add: emit_Inr)
  show ?thesis
  proof (cases "push n m1")
    case (Inl e2)
    with assms Inr r have "e2 = e" by (simp add: visitor_enter_def ub_bind_def)
    with push_Inl [OF Inl] m1 show ?thesis by auto
  next
    case (Inr m2)
    with assms \<open>emit label m = Inr r\<close> r have c: "classify kind m2 = Inl e"
      by (simp add: visitor_enter_def ub_bind_def)
    from Inr m1 have "cyclomatic m2 = cyclomatic m" "varDeclCount m2 = varDeclCount m"
      "currentLoopDepth m2 = currentLoopDepth m"
      by (simp_all add: push_Inr)
    with classify_Inl [OF c] show ?thesis by auto
  qed
qed

lemma visitor_leave_Inl:
  "visitor_leave kind m = Inl e \<Longrightarrow> e = SignedOverflow \<and> \<not> canLeave kind m"
  by (auto simp: visitor_leave_def ub_bind_def decr_def canLeave_def split: if_splits)

lemma visitor_Inl:
  assumes "visitor (Cursor kind label children) m = Inl e"
  shows "visitor_enter kind label m = Inl e \<or>
         (canEnter kind m \<and>
          (clang_visitChildren children (entered kind label m) = Inl e \<or>
           (\<exists>m2. clang_visitChildren children (entered kind label m) = Inr m2 \<and>
                 visitor_leave kind m2 = Inl e)))"
proof (cases "visitor_enter kind label m")
  case (Inl e1)
  with assms show ?thesis by simp
next
  case (Inr m1)
  then have c: "canEnter kind m" and m1: "m1 = entered kind label m"
    by (simp_all add: visitor_enter_Inr)
  have "visitor (Cursor kind label children) m =
        (case clang_visitChildren children m1 of
           Inl e \<Rightarrow> Inl e | Inr m2 \<Rightarrow> visitor_leave kind m2)"
    by (simp add: Inr)
  with assms c m1 show ?thesis
    by (cases "clang_visitChildren children (entered kind label m)") auto
qed

lemma visitChildren_Cons_Inl:
  "clang_visitChildren (child # rest) m = Inl e \<longleftrightarrow>
     visitor child m = Inl e \<or>
     (\<exists>m1. visitor child m = Inr m1 \<and> clang_visitChildren rest m1 = Inl e)"
  by (cases "visitor child m") simp_all

text \<open>A completed visit never met a stack index outside the array.\<close>

lemma within_bounds:
  "visitor c m = Inr m' \<Longrightarrow> stackTop m + int (height c) \<le> 1024"
  "clang_visitChildren cs m = Inr m' \<Longrightarrow> cs = [] \<or> stackTop m + int (heightList cs) \<le> 1024"
proof (induction c m and cs m arbitrary: m' and m' rule: visitor_clang_visitChildren.induct)
  case (1 kind label children metrics)
  from "1.prems" obtain m2 where
    enter: "canEnter kind metrics" and
    kids: "clang_visitChildren children (entered kind label metrics) = Inr m2"
    unfolding visitor_Inr by auto
  from enter have e: "visitor_enter kind label metrics = Inr (entered kind label metrics)"
    by (simp add: visitor_enter_Inr)
  from "1.IH" [OF e kids] enter show ?case
    by (auto simp: entered_simps canEnter_def)
next
  case (2 metrics)
  then show ?case by simp
next
  case (3 child rest metrics)
  from "3.prems" obtain m1 where
    first: "visitor child metrics = Inr m1" and rest: "clang_visitChildren rest m1 = Inr m'"
    unfolding visitChildren_Cons_Inr by auto
  from "3.IH"(1) [OF first] "3.IH"(2) [OF first rest] frame(1) [OF first] show ?case
    by auto
qed

text \<open>The array is left only by a node nested too deep.\<close>

lemma out_of_bounds_deep:
  "visitor c m = Inl OutOfBounds \<Longrightarrow> 0 \<le> stackTop m \<Longrightarrow> 1024 < stackTop m + int (height c)"
  "clang_visitChildren cs m = Inl OutOfBounds \<Longrightarrow> 0 \<le> stackTop m \<Longrightarrow>
     1024 < stackTop m + int (heightList cs)"
proof (induction c m and cs m rule: visitor_clang_visitChildren.induct)
  case (1 kind label children metrics)
  from visitor_Inl [OF "1.prems"(1)] show ?case
  proof (elim disjE conjE exE)
    assume "visitor_enter kind label metrics = Inl OutOfBounds"
    from visitor_enter_Inl [OF this] "1.prems"(2) show ?thesis by auto
  next
    assume enter: "canEnter kind metrics"
      and kids: "clang_visitChildren children (entered kind label metrics) = Inl OutOfBounds"
    from enter have e: "visitor_enter kind label metrics = Inr (entered kind label metrics)"
      by (simp add: visitor_enter_Inr)
    from "1.IH" [OF e kids] "1.prems"(2) show ?thesis
      by (simp add: entered_simps)
  next
    fix m2 assume "visitor_leave kind m2 = Inl OutOfBounds"
    from visitor_leave_Inl [OF this] show ?thesis by simp
  qed
next
  case (2 metrics)
  then show ?case by simp
next
  case (3 child rest metrics)
  from "3.prems"(1) show ?case
    unfolding visitChildren_Cons_Inl
  proof (elim disjE conjE exE)
    assume "visitor child metrics = Inl OutOfBounds"
    from "3.IH"(1) [OF this "3.prems"(2)] show ?thesis by simp
  next
    fix m1 assume first: "visitor child metrics = Inr m1"
      and rest: "clang_visitChildren rest m1 = Inl OutOfBounds"
    from frame(1) [OF first] "3.prems"(2) have "0 \<le> stackTop m1" by simp
    from "3.IH"(2) [OF first rest this] frame(1) [OF first] show ?thesis by simp
  qed
qed

text \<open>While the counters have room, the only way out of defined behaviour is the array.\<close>

lemma only_out_of_bounds:
  "visitor c m = Inl e \<Longrightarrow> fits (int (length (preorder c))) m \<Longrightarrow> e = OutOfBounds"
  "clang_visitChildren cs m = Inl e \<Longrightarrow> fits (int (length (preorderList cs))) m \<Longrightarrow>
     e = OutOfBounds"
proof (induction c m and cs m rule: visitor_clang_visitChildren.induct)
  case (1 kind label children metrics)
  let ?n = "int (length (preorderList children))"
  from "1.prems"(2) have f: "fits (1 + ?n) metrics" by simp
  from visitor_Inl [OF "1.prems"(1)] show ?case
  proof (elim disjE conjE exE)
    assume "visitor_enter kind label metrics = Inl e"
    from visitor_enter_Inl [OF this] f show ?thesis
      by (auto simp: fits_def)
  next
    assume enter: "canEnter kind metrics"
      and kids: "clang_visitChildren children (entered kind label metrics) = Inl e"
    from enter have e: "visitor_enter kind label metrics = Inr (entered kind label metrics)"
      by (simp add: visitor_enter_Inr)
    from enter have "stackTop metrics < 1024" by (simp add: canEnter_def)
    from fits_enter(2) [OF f _ this] have "fits ?n (entered kind label metrics)" by simp
    from "1.IH" [OF e kids this] show ?thesis .
  next
    fix m2 assume kids: "clang_visitChildren children (entered kind label metrics) = Inr m2"
      and "visitor_leave kind m2 = Inl e"
    from visitor_leave_Inl [OF this(2)] fits_leave [OF f kids] show ?thesis by simp
  qed
next
  case (2 metrics)
  then show ?case by simp
next
  case (3 child rest metrics)
  from "3.prems"(2)
  have f: "fits (int (length (preorder child)) + int (length (preorderList rest))) metrics"
    by simp
  then have f1: "fits (int (length (preorder child))) metrics"
    by (simp add: fits_def)
  from "3.prems"(1) show ?case
    unfolding visitChildren_Cons_Inl
  proof (elim disjE conjE exE)
    assume "visitor child metrics = Inl e"
    from "3.IH"(1) [OF this f1] show ?thesis .
  next
    fix m1 assume first: "visitor child metrics = Inr m1"
      and rest: "clang_visitChildren rest m1 = Inl e"
    from fits_after [OF first f] have "fits (int (length (preorderList rest))) m1" by simp
    from "3.IH"(2) [OF first rest this] show ?thesis .
  qed
qed

section \<open>The whole traversal\<close>

text \<open>
  The traversal of line 111 stays within defined behaviour on every unit nested at most
  1024 deep below the root cursor and small enough for the 32-bit counters.
\<close>

lemma traverse_completes:
  assumes "depth rootCursor \<le> 1024" and "int (length (visitedNodes rootCursor)) < INT_MAX"
  shows "\<exists>m. traverse rootCursor = Inr m"
proof -
  from assms(2) have "fits (int (length (preorderList (cursorChildren rootCursor)))) initialMetrics"
    by (simp add: fits_def initialMetrics_def visitedNodes_def INT_MAX_def INT_MIN_def)
  moreover from assms(1)
  have "stackTop initialMetrics + int (heightList (cursorChildren rootCursor)) \<le> 1024"
    by (simp add: initialMetrics_def depth_def)
  ultimately show ?thesis
    unfolding traverse_def by (rule completes(2))
qed

lemma last_paths:
  "map last (paths anc c) = map cursorKind (preorder c)"
  "map last (pathsList anc cs) = map cursorKind (preorderList cs)"
  by (induction anc c and anc cs rule: paths_pathsList.induct) simp_all

lemma loopNestings_empty:
  assumes "countKind isLoop (preorderList cs) = 0"
  shows "loopNestings (pathsList anc cs) = []"
proof -
  from assms have "\<forall>k \<in> set (map cursorKind (preorderList cs)). \<not> isLoop k"
    by (simp add: countKind_def filter_empty_conv)
  then have "\<forall>k \<in> set (map last (pathsList anc cs)). \<not> isLoop k"
    by (simp only: last_paths)
  then show ?thesis
    by (simp add: loopNestings_def filter_empty_conv)
qed

section \<open>Loop nesting\<close>

lemma completed_maxLoopDepth:
  "traverse rootCursor = Inr m \<Longrightarrow>
     maxLoopDepth m = specMaxLoopDepth rootCursor \<and>
     (countKind isLoop (visitedNodes rootCursor) = 0 \<longrightarrow> maxLoopDepth m = 0)"
proof -
  assume t: "traverse rootCursor = Inr m"
  let ?cs = "cursorChildren rootCursor"
  have "currentLoopDepth initialMetrics = loopNesting []"
    by (simp add: initialMetrics_def loopNesting_def)
  with t have "maxLoopDepth m = fold max (loopNestings (pathsList [] ?cs)) (maxLoopDepth initialMetrics)"
    unfolding traverse_def by (rule high_water(2))
  then have m: "maxLoopDepth m = fold max (loopNestings (pathsList [] ?cs)) 0"
    by (simp add: initialMetrics_def)
  then have "maxLoopDepth m = specMaxLoopDepth rootCursor"
    by (simp only: specMaxLoopDepth_def Max.set_eq_fold)
  moreover have "maxLoopDepth m = 0" if "countKind isLoop (visitedNodes rootCursor) = 0"
    using that m by (simp add: visitedNodes_def loopNestings_empty)
  ultimately show ?thesis by simp
qed

text \<open>
  C1. On every unit within the limits of \<open>traverse_completes\<close> the traversal completes,
  and then \<^verbatim>\<open>maxLoopDepth\<close> is the greatest number of \<^verbatim>\<open>for\<close>/\<^verbatim>\<open>while\<close> nodes
  found on the path to any \<^verbatim>\<open>for\<close>/\<^verbatim>\<open>while\<close> node (the node itself counted), and
  it is 0 when the unit has no such node.
\<close>

theorem maxLoopDepth_is_deepest_loop_nesting:
  "depth rootCursor \<le> 1024 \<Longrightarrow> int (length (visitedNodes rootCursor)) < INT_MAX \<Longrightarrow>
     \<exists>m. traverse rootCursor = Inr m \<and>
         maxLoopDepth m = specMaxLoopDepth rootCursor \<and>
         (countKind isLoop (visitedNodes rootCursor) = 0 \<longrightarrow> maxLoopDepth m = 0)"
proof -
  assume "depth rootCursor \<le> 1024" and "int (length (visitedNodes rootCursor)) < INT_MAX"
  then obtain m where t: "traverse rootCursor = Inr m"
    using traverse_completes by blast
  from completed_maxLoopDepth [OF t] t show ?thesis by blast
qed

theorem maxLoopDepth_is_deepest_loop_nesting_witness:
  "depth exampleUnit \<le> 1024 \<and> int (length (visitedNodes exampleUnit)) < INT_MAX \<and>
   traverse exampleUnit = Inr exampleFinal \<and>
   maxLoopDepth exampleFinal = specMaxLoopDepth exampleUnit \<and> specMaxLoopDepth exampleUnit = 2 \<and>
   depth twoDecls \<le> 1024 \<and> int (length (visitedNodes twoDecls)) < INT_MAX \<and>
   traverse twoDecls = Inr twoDeclsFinal \<and> countKind isLoop (visitedNodes twoDecls) = 0 \<and>
   maxLoopDepth twoDeclsFinal = 0"
proof -
  have d: "depth exampleUnit \<le> 1024" and s: "int (length (visitedNodes exampleUnit)) < INT_MAX"
    by code_simp+
  have d': "depth twoDecls \<le> 1024" and s': "int (length (visitedNodes twoDecls)) < INT_MAX"
    by code_simp+
  have h: "traverse exampleUnit = Inr exampleFinal" by code_simp
  have v: "specMaxLoopDepth exampleUnit = 2" by code_simp
  have h': "traverse twoDecls = Inr twoDeclsFinal" by code_simp
  have v': "countKind isLoop (visitedNodes twoDecls) = 0" by code_simp
  from maxLoopDepth_is_deepest_loop_nesting [OF d s] h
  have a: "maxLoopDepth exampleFinal = specMaxLoopDepth exampleUnit" by auto
  from maxLoopDepth_is_deepest_loop_nesting [OF d' s'] h' v'
  have b: "maxLoopDepth twoDeclsFinal = 0" by auto
  from d s d' s' h v h' v' a b show ?thesis by blast
qed

section \<open>Loop depth returns to where it was\<close>

text \<open>
  C2. A completed visit of any node leaves \<^verbatim>\<open>currentLoopDepth\<close> as it found it (the
  increment of line 55 is undone by the decrement of line 65, whatever lies below the
  node), so the traversal, which starts from 0, ends with 0.
\<close>

theorem currentLoopDepth_balanced:
  "(visitor c m = Inr m' \<longrightarrow> currentLoopDepth m' = currentLoopDepth m) \<and>
   (traverse rootCursor = Inr final \<longrightarrow> currentLoopDepth final = 0)"
proof (intro conjI impI)
  assume "visitor c m = Inr m'"
  from frame(1) [OF this] show "currentLoopDepth m' = currentLoopDepth m" by simp
next
  assume "traverse rootCursor = Inr final"
  then have "clang_visitChildren (cursorChildren rootCursor) initialMetrics = Inr final"
    by (simp only: traverse_def)
  from frame(2) [OF this] show "currentLoopDepth final = 0"
    by (simp add: initialMetrics_def)
qed

theorem currentLoopDepth_balanced_witness:
  "visitor loneLoop initialMetrics = Inr loneLoopVisited \<and>
   currentLoopDepth loneLoopVisited = currentLoopDepth initialMetrics \<and>
   traverse exampleUnit = Inr exampleFinal \<and> currentLoopDepth exampleFinal = 0"
proof -
  have h1: "visitor loneLoop initialMetrics = Inr loneLoopVisited" by code_simp
  have h2: "traverse exampleUnit = Inr exampleFinal" by code_simp
  from currentLoopDepth_balanced [of loneLoop initialMetrics loneLoopVisited exampleUnit exampleFinal]
    h1 h2 show ?thesis by blast
qed

section \<open>Cyclomatic complexity\<close>

lemma completed_cyclomatic:
  "traverse rootCursor = Inr m \<Longrightarrow>
     cyclomatic m = 1 + countKind isDecision (visitedNodes rootCursor) \<and>
     1 \<le> cyclomatic m \<and>
     (countKind isDecision (visitedNodes rootCursor) = 0 \<longrightarrow> cyclomatic m = 1)"
proof -
  assume "traverse rootCursor = Inr m"
  then have "clang_visitChildren (cursorChildren rootCursor) initialMetrics = Inr m"
    by (simp only: traverse_def)
  from counts(2) [OF this]
  have "cyclomatic m = 1 + countKind isDecision (visitedNodes rootCursor)"
    by (simp add: initialMetrics_def visitedNodes_def)
  with countKind_bounds(1) [of isDecision "visitedNodes rootCursor"] show ?thesis
    by simp
qed

text \<open>
  C3. On every unit within the limits of \<open>traverse_completes\<close> the traversal completes,
  and then \<^verbatim>\<open>cyclomatic\<close> is 1 plus the number of visited nodes that are an \<^verbatim>\<open>if\<close>,
  a \<^verbatim>\<open>for\<close>, a \<^verbatim>\<open>while\<close>, a \<^verbatim>\<open>case\<close> label or a conditional operator; so it is at
  least 1, and exactly 1 when there is no such node.
\<close>

theorem cyclomatic_counts_decision_points:
  "depth rootCursor \<le> 1024 \<Longrightarrow> int (length (visitedNodes rootCursor)) < INT_MAX \<Longrightarrow>
     \<exists>m. traverse rootCursor = Inr m \<and>
         cyclomatic m = 1 + countKind isDecision (visitedNodes rootCursor) \<and>
         1 \<le> cyclomatic m \<and>
         (countKind isDecision (visitedNodes rootCursor) = 0 \<longrightarrow> cyclomatic m = 1)"
proof -
  assume "depth rootCursor \<le> 1024" and "int (length (visitedNodes rootCursor)) < INT_MAX"
  then obtain m where t: "traverse rootCursor = Inr m"
    using traverse_completes by blast
  from completed_cyclomatic [OF t] t show ?thesis by blast
qed

theorem cyclomatic_counts_decision_points_witness:
  "depth exampleUnit \<le> 1024 \<and> int (length (visitedNodes exampleUnit)) < INT_MAX \<and>
   traverse exampleUnit = Inr exampleFinal \<and>
   cyclomatic exampleFinal = 1 + countKind isDecision (visitedNodes exampleUnit) \<and>
   countKind isDecision (visitedNodes exampleUnit) = 3 \<and>
   depth twoDecls \<le> 1024 \<and> int (length (visitedNodes twoDecls)) < INT_MAX \<and>
   traverse twoDecls = Inr twoDeclsFinal \<and> countKind isDecision (visitedNodes twoDecls) = 0 \<and>
   cyclomatic twoDeclsFinal = 1"
proof -
  have d: "depth exampleUnit \<le> 1024" and s: "int (length (visitedNodes exampleUnit)) < INT_MAX"
    by code_simp+
  have d': "depth twoDecls \<le> 1024" and s': "int (length (visitedNodes twoDecls)) < INT_MAX"
    by code_simp+
  have h: "traverse exampleUnit = Inr exampleFinal" by code_simp
  have v: "countKind isDecision (visitedNodes exampleUnit) = 3" by code_simp
  have h': "traverse twoDecls = Inr twoDeclsFinal" by code_simp
  have v': "countKind isDecision (visitedNodes twoDecls) = 0" by code_simp
  from cyclomatic_counts_decision_points [OF d s] h
  have a: "cyclomatic exampleFinal = 1 + countKind isDecision (visitedNodes exampleUnit)" by auto
  from cyclomatic_counts_decision_points [OF d' s'] h' v'
  have b: "cyclomatic twoDeclsFinal = 1" by auto
  from d s d' s' h v h' v' a b show ?thesis by blast
qed

section \<open>Variable declarations\<close>

lemma completed_varDeclCount:
  "traverse rootCursor = Inr m \<Longrightarrow>
     varDeclCount m = countKind (\<lambda>kind. kind = CXCursor_VarDecl) (visitedNodes rootCursor)"
proof -
  assume "traverse rootCursor = Inr m"
  then have "clang_visitChildren (cursorChildren rootCursor) initialMetrics = Inr m"
    by (simp only: traverse_def)
  from counts(2) [OF this] show ?thesis
    by (simp add: initialMetrics_def visitedNodes_def)
qed

text \<open>
  C4. On every unit within the limits of \<open>traverse_completes\<close> the traversal completes,
  and then \<^verbatim>\<open>varDeclCount\<close> is the number of visited nodes of kind
  \<^verbatim>\<open>CXCursor_VarDecl\<close>, wherever they stand in the tree.
\<close>

theorem varDeclCount_counts_declarations:
  "depth rootCursor \<le> 1024 \<Longrightarrow> int (length (visitedNodes rootCursor)) < INT_MAX \<Longrightarrow>
     \<exists>m. traverse rootCursor = Inr m \<and>
         varDeclCount m =
           countKind (\<lambda>kind. kind = CXCursor_VarDecl) (visitedNodes rootCursor)"
proof -
  assume "depth rootCursor \<le> 1024" and "int (length (visitedNodes rootCursor)) < INT_MAX"
  then obtain m where t: "traverse rootCursor = Inr m"
    using traverse_completes by blast
  from completed_varDeclCount [OF t] t show ?thesis by blast
qed

theorem varDeclCount_counts_declarations_witness:
  "depth exampleUnit \<le> 1024 \<and> int (length (visitedNodes exampleUnit)) < INT_MAX \<and>
   traverse exampleUnit = Inr exampleFinal \<and>
   varDeclCount exampleFinal =
     countKind (\<lambda>kind. kind = CXCursor_VarDecl) (visitedNodes exampleUnit) \<and>
   varDeclCount exampleFinal = 2"
proof -
  have d: "depth exampleUnit \<le> 1024" and s: "int (length (visitedNodes exampleUnit)) < INT_MAX"
    by code_simp+
  have h: "traverse exampleUnit = Inr exampleFinal" by code_simp
  have v: "varDeclCount exampleFinal = 2" by (simp add: exampleFinal_def)
  from varDeclCount_counts_declarations [OF d s] h
  have a: "varDeclCount exampleFinal =
      countKind (\<lambda>kind. kind = CXCursor_VarDecl) (visitedNodes exampleUnit)" by auto
  from d s h v a show ?thesis by blast
qed

section \<open>Node statements\<close>

lemma fst_nodeRecords: "map fst (nodeRecords n xs) = map (\<lambda>i. n + int i) [0..<length xs]"
proof (induction xs arbitrary: n)
  case Nil
  then show ?case by simp
next
  case (Cons x xs)
  have "[0..<Suc (length xs)] = 0 # map Suc [0..<length xs]"
    by (simp add: upt_conv_Cons map_Suc_upt del: upt_Suc)
  with Cons [of "n + 1"] show ?case
    by (simp add: comp_def add.assoc del: upt_Suc)
qed

lemma snd_nodeRecords: "map snd (nodeRecords n xs) = map cursorSpelling xs"
  by (induction xs arbitrary: n) simp_all

lemma length_nodeRecords: "length (nodeRecords n xs) = length xs"
  by (induction xs arbitrary: n) simp_all

lemma traverse_nodes:
  assumes "traverse rootCursor = Inr m"
  shows "nodeStmts (dotFile m) = nodeRecords 0 (visitedNodes rootCursor)"
    and "nodeCounter m = int (length (visitedNodes rootCursor))"
proof -
  from assms have t: "clang_visitChildren (cursorChildren rootCursor) initialMetrics = Inr m"
    by (simp only: traverse_def)
  from node_statements(2) [OF t]
  show "nodeStmts (dotFile m) = nodeRecords 0 (visitedNodes rootCursor)"
    by (simp add: initialMetrics_def visitedNodes_def)
  from frame(2) [OF t] show "nodeCounter m = int (length (visitedNodes rootCursor))"
    by (simp add: initialMetrics_def visitedNodes_def)
qed

lemma completed_node_statements:
  "traverse rootCursor = Inr m \<Longrightarrow>
     map snd (nodeStmts (dotFile m)) = map cursorSpelling (visitedNodes rootCursor) \<and>
     map fst (nodeStmts (dotFile m)) = map int [0..<length (visitedNodes rootCursor)] \<and>
     distinct (map fst (nodeStmts (dotFile m))) \<and>
     sorted_wrt (<) (map fst (nodeStmts (dotFile m))) \<and>
     int (length (nodeStmts (dotFile m))) = nodeCounter m"
proof -
  assume t: "traverse rootCursor = Inr m"
  let ?ids = "map fst (nodeStmts (dotFile m))"
  have ids: "?ids = map int [0..<length (visitedNodes rootCursor)]"
    by (simp add: traverse_nodes(1) [OF t] fst_nodeRecords)
  have "sorted_wrt (<) ?ids"
    unfolding ids by (simp add: sorted_wrt_map)
  moreover have "distinct ?ids"
    unfolding ids by (simp add: distinct_map inj_on_def)
  ultimately show ?thesis
    using ids by (simp add: traverse_nodes [OF t] snd_nodeRecords length_nodeRecords)
qed

text \<open>
  C6. On every unit within the limits of \<open>traverse_completes\<close> the traversal completes,
  and the node statements written are one per visited node, in pre-order; their ids are
  0, 1, 2, ... in the order written, hence distinct and increasing, and there are as many
  as the final value of \<^verbatim>\<open>nodeCounter\<close>.
\<close>

theorem one_node_statement_per_visited_node:
  "depth rootCursor \<le> 1024 \<Longrightarrow> int (length (visitedNodes rootCursor)) < INT_MAX \<Longrightarrow>
     \<exists>m. traverse rootCursor = Inr m \<and>
         map snd (nodeStmts (dotFile m)) = map cursorSpelling (visitedNodes rootCursor) \<and>
         map fst (nodeStmts (dotFile m)) = map int [0..<length (visitedNodes rootCursor)] \<and>
         distinct (map fst (nodeStmts (dotFile m))) \<and>
         sorted_wrt (<) (map fst (nodeStmts (dotFile m))) \<and>
         int (length (nodeStmts (dotFile m))) = nodeCounter m"
proof -
  assume "depth rootCursor \<le> 1024" and "int (length (visitedNodes rootCursor)) < INT_MAX"
  then obtain m where t: "traverse rootCursor = Inr m"
    using traverse_completes by blast
  from completed_node_statements [OF t] t show ?thesis by blast
qed

theorem one_node_statement_per_visited_node_witness:
  "depth exampleUnit \<le> 1024 \<and> int (length (visitedNodes exampleUnit)) < INT_MAX \<and>
   traverse exampleUnit = Inr exampleFinal \<and>
   map snd (nodeStmts (dotFile exampleFinal)) = map cursorSpelling (visitedNodes exampleUnit) \<and>
   map fst (nodeStmts (dotFile exampleFinal)) = [0, 1, 2, 3, 4, 5, 6] \<and>
   nodeCounter exampleFinal = 7"
proof -
  have d: "depth exampleUnit \<le> 1024" and s: "int (length (visitedNodes exampleUnit)) < INT_MAX"
    by code_simp+
  have h: "traverse exampleUnit = Inr exampleFinal" by code_simp
  have v: "map fst (nodeStmts (dotFile exampleFinal)) = [0, 1, 2, 3, 4, 5, 6]"
    "nodeCounter exampleFinal = 7"
    by (simp_all add: exampleFinal_def)
  from one_node_statement_per_visited_node [OF d s] h
  have a: "map snd (nodeStmts (dotFile exampleFinal)) =
      map cursorSpelling (visitedNodes exampleUnit)" by auto
  from d s h v a show ?thesis by blast
qed

section \<open>Edge statements\<close>

lemma length_pairs:
  "int (length (parentChildPairs n c)) = int (length (preorder c)) - 1"
  "int (length (childPairs p n cs)) = int (length (preorderList cs))"
  by (induction n c and p n cs rule: parentChildPairs_childPairs.induct) simp_all

lemma length_forestPairs:
  "int (length (forestPairs n cs)) = int (length (preorderList cs)) - int (length cs)"
  by (induction n cs rule: forestPairs.induct) (simp_all add: length_pairs)

lemma pairs_range:
  "(p, c) \<in> set (parentChildPairs n t) \<Longrightarrow>
     n \<le> p \<and> p < c \<and> c < n + int (length (preorder t))"
  "(p, c) \<in> set (childPairs q n ts) \<Longrightarrow> q < n \<Longrightarrow>
     (p = q \<or> n \<le> p) \<and> p < c \<and> n \<le> c \<and> c < n + int (length (preorderList ts))"
proof (induction n t and q n ts arbitrary: p c and p c rule: parentChildPairs_childPairs.induct)
  case (1 n kind label children)
  from "1.IH" [OF "1.prems" [simplified]] show ?case by auto
next
  case (2 p n)
  then show ?case by simp
next
  case (3 q n child rest)
  from "3.prems"(1) consider "(p, c) = (q, n)" | "(p, c) \<in> set (parentChildPairs n child)"
    | "(p, c) \<in> set (childPairs q (n + int (length (preorder child))) rest)"
    by auto
  then show ?case
  proof cases
    case 1
    with "3.prems"(2) show ?thesis by (cases child) auto
  next
    case 2
    from "3.IH"(1) [OF this] "3.prems"(2) show ?thesis by auto
  next
    case 3
    have "0 < length (preorder child)" by (cases child) simp
    with "3.IH"(2) [OF 3] "3.prems"(2) show ?thesis by auto
  qed
qed

lemma forestPairs_range:
  "(p, c) \<in> set (forestPairs n ts) \<Longrightarrow>
     n \<le> p \<and> p < c \<and> c < n + int (length (preorderList ts))"
proof (induction n ts rule: forestPairs.induct)
  case (1 n)
  then show ?case by simp
next
  case (2 n tree rest)
  from "2.prems" consider "(p, c) \<in> set (parentChildPairs n tree)"
    | "(p, c) \<in> set (forestPairs (n + int (length (preorder tree))) rest)"
    by auto
  then show ?case
  proof cases
    case 1
    from pairs_range(1) [OF this] show ?thesis by auto
  next
    case 2
    from "2.IH" [OF this] show ?thesis by auto
  qed
qed

lemma children_increasing:
  "sorted_wrt (<) (map snd (parentChildPairs n t))"
  "q < n \<Longrightarrow> sorted_wrt (<) (map snd (childPairs q n ts))"
proof (induction n t and q n ts rule: parentChildPairs_childPairs.induct)
  case (1 n kind label children)
  then show ?case by simp
next
  case (2 p n)
  then show ?case by simp
next
  case (3 q n child rest)
  let ?k = "n + int (length (preorder child))"
  have pos: "0 < int (length (preorder child))" by (cases child) simp
  with "3.prems" have q: "q < ?k" by simp
  have a: "\<forall>c \<in> snd ` set (parentChildPairs n child). n < c \<and> c < ?k"
    using pairs_range(1) [of _ _ n child] by fastforce
  have b: "\<forall>c \<in> snd ` set (childPairs q ?k rest). ?k \<le> c"
    using pairs_range(2) [OF _ q, of _ _ rest] by fastforce
  have "sorted_wrt (<) (map snd (parentChildPairs n child) @ map snd (childPairs q ?k rest))"
    unfolding sorted_wrt_append using "3.IH"(1) "3.IH"(2) [OF q] a b by fastforce
  moreover have "n < ?k" using pos by simp
  then have "\<forall>c \<in> snd ` set (childPairs q ?k rest). n < c"
    using b by (blast intro: less_le_trans)
  ultimately show ?case using a by auto
qed

lemma forest_children_increasing: "sorted_wrt (<) (map snd (forestPairs n ts))"
proof (induction n ts rule: forestPairs.induct)
  case (1 n)
  then show ?case by simp
next
  case (2 n tree rest)
  let ?k = "n + int (length (preorder tree))"
  have a: "\<forall>c \<in> snd ` set (parentChildPairs n tree). c < ?k"
    using pairs_range(1) [of _ _ n tree] by fastforce
  have b: "\<forall>c \<in> snd ` set (forestPairs ?k rest). ?k < c"
    using forestPairs_range [of _ _ ?k rest] by fastforce
  have "sorted_wrt (<) (map snd (parentChildPairs n tree) @ map snd (forestPairs ?k rest))"
    unfolding sorted_wrt_append using "2.IH" children_increasing(1) [of n tree] a b by fastforce
  then show ?case by simp
qed

lemma traverse_edges:
  assumes "traverse rootCursor = Inr m"
  shows "edgeStmts (dotFile m) = forestPairs 0 (cursorChildren rootCursor)"
proof -
  from assms have t: "clang_visitChildren (cursorChildren rootCursor) initialMetrics = Inr m"
    by (simp only: traverse_def)
  have "length (nodeStack initialMetrics) = 1024"
    by (simp add: initialMetrics_def)
  from edge_statements(2) [OF t this] show ?thesis
    by (simp add: initialMetrics_def)
qed

lemma completed_edge_statements:
  "traverse rootCursor = Inr m \<Longrightarrow>
     edgeStmts (dotFile m) = forestPairs 0 (cursorChildren rootCursor) \<and>
     int (length (edgeStmts (dotFile m))) =
       int (length (nodeStmts (dotFile m))) - int (length (cursorChildren rootCursor)) \<and>
     (length (cursorChildren rootCursor) = 1 \<longrightarrow>
        int (length (edgeStmts (dotFile m))) = int (length (nodeStmts (dotFile m))) - 1) \<and>
     (\<forall>(p, c) \<in> set (edgeStmts (dotFile m)). 0 \<le> p \<and> p < c \<and> c < nodeCounter m) \<and>
     sorted_wrt (<) (map snd (edgeStmts (dotFile m)))"
proof -
  assume t: "traverse rootCursor = Inr m"
  note e = traverse_edges [OF t]
  note n = traverse_nodes [OF t]
  have count: "int (length (edgeStmts (dotFile m))) =
      int (length (nodeStmts (dotFile m))) - int (length (cursorChildren rootCursor))"
    by (simp only: e n length_forestPairs length_nodeRecords visitedNodes_def)
  have range: "\<forall>(p, c) \<in> set (edgeStmts (dotFile m)). 0 \<le> p \<and> p < c \<and> c < nodeCounter m"
    unfolding e n visitedNodes_def using forestPairs_range [of _ _ 0 "cursorChildren rootCursor"]
    by fastforce
  from e count range forest_children_increasing [of 0 "cursorChildren rootCursor"] show ?thesis
    by simp
qed

text \<open>
  C5, as the code has it. The root cursor is not visited: line 111 hands its children to
  the visitor, each with an empty stack, so none of them gets an edge. On every unit
  within the limits of \<open>traverse_completes\<close> the traversal completes, and the edge
  statements written are the pairs of a parent's and a child's pre-order number for the
  nodes below the top level, in pre-order of the child; there are as many as node
  statements minus top-level nodes (one less than node statements exactly when the root
  has one child); every edge goes from an id written earlier to a later one, and no id
  is entered twice.
\<close>

theorem edges_join_each_nested_node_to_its_parent:
  "depth rootCursor \<le> 1024 \<Longrightarrow> int (length (visitedNodes rootCursor)) < INT_MAX \<Longrightarrow>
     \<exists>m. traverse rootCursor = Inr m \<and>
         edgeStmts (dotFile m) = forestPairs 0 (cursorChildren rootCursor) \<and>
         int (length (edgeStmts (dotFile m))) =
           int (length (nodeStmts (dotFile m))) - int (length (cursorChildren rootCursor)) \<and>
         (length (cursorChildren rootCursor) = 1 \<longrightarrow>
            int (length (edgeStmts (dotFile m))) = int (length (nodeStmts (dotFile m))) - 1) \<and>
         (\<forall>(p, c) \<in> set (edgeStmts (dotFile m)). 0 \<le> p \<and> p < c \<and> c < nodeCounter m) \<and>
         sorted_wrt (<) (map snd (edgeStmts (dotFile m)))"
proof -
  assume "depth rootCursor \<le> 1024" and "int (length (visitedNodes rootCursor)) < INT_MAX"
  then obtain m where t: "traverse rootCursor = Inr m"
    using traverse_completes by blast
  from completed_edge_statements [OF t] t show ?thesis by blast
qed

theorem edges_join_each_nested_node_to_its_parent_witness:
  "depth exampleUnit \<le> 1024 \<and> int (length (visitedNodes exampleUnit)) < INT_MAX \<and>
   traverse exampleUnit = Inr exampleFinal \<and>
   edgeStmts (dotFile exampleFinal) = forestPairs 0 (cursorChildren exampleUnit) \<and>
   edgeStmts (dotFile exampleFinal) = [(0, 1), (1, 2), (1, 3), (3, 4), (4, 5)] \<and>
   length (cursorChildren exampleUnit) = 2 \<and>
   int (length (edgeStmts (dotFile exampleFinal))) =
     int (length (nodeStmts (dotFile exampleFinal))) - 2 \<and>
   depth literalUnit \<le> 1024 \<and> int (length (visitedNodes literalUnit)) < INT_MAX \<and>
   traverse literalUnit = Inr literalFinal \<and> length (cursorChildren literalUnit) = 1 \<and>
   int (length (edgeStmts (dotFile literalFinal))) =
     int (length (nodeStmts (dotFile literalFinal))) - 1"
proof -
  have d: "depth exampleUnit \<le> 1024" and s: "int (length (visitedNodes exampleUnit)) < INT_MAX"
    by code_simp+
  have d': "depth literalUnit \<le> 1024" and s': "int (length (visitedNodes literalUnit)) < INT_MAX"
    by code_simp+
  have h: "traverse exampleUnit = Inr exampleFinal" by code_simp
  have v: "edgeStmts (dotFile exampleFinal) = [(0, 1), (1, 2), (1, 3), (3, 4), (4, 5)]"
    "length (cursorChildren exampleUnit) = 2"
    by (simp_all add: exampleFinal_def exampleUnit_def)
  have h': "traverse literalUnit = Inr literalFinal" by code_simp
  have v': "length (cursorChildren literalUnit) = 1"
    by (simp add: literalUnit_def)
  from edges_join_each_nested_node_to_its_parent [OF d s] h
  have c: "edgeStmts (dotFile exampleFinal) = forestPairs 0 (cursorChildren exampleUnit)"
    "int (length (edgeStmts (dotFile exampleFinal))) =
      int (length (nodeStmts (dotFile exampleFinal))) - int (length (cursorChildren exampleUnit))"
    by auto
  from edges_join_each_nested_node_to_its_parent [OF d' s'] h' v'
  have c': "int (length (edgeStmts (dotFile literalFinal))) =
      int (length (nodeStmts (dotFile literalFinal))) - 1"
    by auto
  from c(2) v(2) have c2: "int (length (edgeStmts (dotFile exampleFinal))) =
      int (length (nodeStmts (dotFile exampleFinal))) - 2"
    by simp
  from d s h c(1) v c2 d' s' h' v' c' show ?thesis by blast
qed

text \<open>
  C5 as stated fails on a unit of two global variables: two node statements, no edge.
\<close>

theorem top_level_nodes_have_no_edge:
  "traverse twoDecls = Inr twoDeclsFinal \<and>
   length (nodeStmts (dotFile twoDeclsFinal)) = 2 \<and>
   length (edgeStmts (dotFile twoDeclsFinal)) = 0 \<and>
   int (length (edgeStmts (dotFile twoDeclsFinal))) \<noteq>
     int (length (nodeStmts (dotFile twoDeclsFinal))) - 1"
proof -
  have "traverse twoDecls = Inr twoDeclsFinal" by code_simp
  then show ?thesis by (simp add: twoDeclsFinal_def)
qed

section \<open>The bounds of the parent stack\<close>

lemma height_chain: "height (chain n) = Suc n"
  by (induction n) simp_all

lemma length_preorder_chain: "length (preorder (chain n)) = Suc n"
  by (induction n) simp_all

lemma depth_deepUnit: "depth deepUnit = 1025"
  by (simp add: depth_def deepUnit_def height_chain)

lemma size_deepUnit: "length (visitedNodes deepUnit) = 1025"
  by (simp add: visitedNodes_def deepUnit_def length_preorder_chain)

text \<open>
  C10. \<^verbatim>\<open>nodeStack\<close> has 1024 entries and line 36 writes at \<^verbatim>\<open>stackTop\<close> unchecked:
  the push is defined exactly for \<^verbatim>\<open>0 <= stackTop < 1024\<close>. A traversal of a unit
  nested at most 1024 deep below the root cursor never leaves the array; a traversal of a
  deeper unit never completes, and leaves the array unless a counter overflows first,
  as it does on the function with 1024 nested blocks.
\<close>

theorem nodeStack_in_bounds_iff_depth_at_most_1024:
  "((\<exists>m'. push nodeId m = Inr m') \<longleftrightarrow> 0 \<le> stackTop m \<and> stackTop m < 1024) \<and>
   (depth rootCursor \<le> 1024 \<longrightarrow> traverse rootCursor \<noteq> Inl OutOfBounds) \<and>
   (1024 < depth rootCursor \<longrightarrow> (\<forall>final. traverse rootCursor \<noteq> Inr final)) \<and>
   (1024 < depth rootCursor \<and> int (length (visitedNodes rootCursor)) < INT_MAX \<longrightarrow>
      traverse rootCursor = Inl OutOfBounds) \<and>
   1024 < depth deepUnit \<and> traverse deepUnit = Inl OutOfBounds"
proof -
  have start: "stackTop initialMetrics = 0"
    by (simp add: initialMetrics_def)
  have shallow: "traverse r \<noteq> Inl OutOfBounds" if "depth r \<le> 1024" for r
  proof
    assume "traverse r = Inl OutOfBounds"
    then have "clang_visitChildren (cursorChildren r) initialMetrics = Inl OutOfBounds"
      by (simp only: traverse_def)
    from out_of_bounds_deep(2) [OF this] that show False
      by (simp add: start depth_def)
  qed
  have deep: "traverse r \<noteq> Inr final" if "1024 < depth r" for r final
  proof
    assume "traverse r = Inr final"
    then have "clang_visitChildren (cursorChildren r) initialMetrics = Inr final"
      by (simp only: traverse_def)
    from within_bounds(2) [OF this] that show False
      by (auto simp: start depth_def)
  qed
  have leaves: "traverse r = Inl OutOfBounds"
    if "1024 < depth r" and "int (length (visitedNodes r)) < INT_MAX" for r
  proof (cases "traverse r")
    case (Inl e)
    then have t: "clang_visitChildren (cursorChildren r) initialMetrics = Inl e"
      by (simp only: traverse_def)
    from that(2) have "fits (int (length (preorderList (cursorChildren r)))) initialMetrics"
      by (simp add: fits_def initialMetrics_def visitedNodes_def INT_MAX_def INT_MIN_def)
    from only_out_of_bounds(2) [OF t this] Inl show ?thesis by simp
  next
    case (Inr final)
    with deep [OF that(1), of final] show ?thesis by simp
  qed
  have "traverse deepUnit = Inl OutOfBounds"
    by (rule leaves) (simp_all add: depth_deepUnit size_deepUnit INT_MAX_def)
  moreover have "(\<exists>m'. push nodeId m = Inr m') \<longleftrightarrow> 0 \<le> stackTop m \<and> stackTop m < 1024"
    by (simp add: push_Inr)
  ultimately show ?thesis
    using shallow deep leaves by (simp add: depth_deepUnit)
qed

theorem nodeStack_in_bounds_iff_depth_at_most_1024_witness:
  "depth exampleUnit \<le> 1024 \<and> traverse exampleUnit \<noteq> Inl OutOfBounds \<and>
   1024 < depth deepUnit \<and> int (length (visitedNodes deepUnit)) < INT_MAX \<and>
   traverse deepUnit = Inl OutOfBounds \<and> traverse deepUnit \<noteq> Inr exampleFinal"
proof -
  have h1: "depth exampleUnit \<le> 1024" by code_simp
  have h2: "1024 < depth deepUnit" by (simp add: depth_deepUnit)
  have h3: "int (length (visitedNodes deepUnit)) < INT_MAX"
    by (simp add: size_deepUnit INT_MAX_def)
  note c1 = nodeStack_in_bounds_iff_depth_at_most_1024 [of 0 initialMetrics exampleUnit]
  note c2 = nodeStack_in_bounds_iff_depth_at_most_1024 [of 0 initialMetrics deepUnit]
  from c1 h1 have a: "traverse exampleUnit \<noteq> Inl OutOfBounds" by blast
  from c2 h2 h3 have b: "traverse deepUnit = Inl OutOfBounds" by blast
  from c2 h2 have c: "traverse deepUnit \<noteq> Inr exampleFinal" by blast
  from h1 h2 h3 a b c show ?thesis by blast
qed

section \<open>Exit status\<close>

lemma returned_exit_status:
  "main e = Inr r \<Longrightarrow>
     (exitStatus r \<noteq> 0 \<longleftrightarrow> argc e < 2 \<or> fopenError e \<noteq> None \<or> parseResult e = None) \<and>
     (exitStatus r = 0 \<or> exitStatus r = 1) \<and>
     map_sum id exitStatus (main (e\<lparr>dotStatus := d, viewerStatus := v\<rparr>)) = Inr (exitStatus r)"
  by (auto simp: main_def argc_def split: if_splits list.splits option.splits sum.splits)

text \<open>
  C9. Every run with a program name in \<^verbatim>\<open>argv[0]\<close> whose parsed unit, if the run gets
  that far, is within the limits of \<open>traverse_completes\<close> returns from \<^verbatim>\<open>main\<close>: with 1
  when \<^verbatim>\<open>argc < 2\<close>, when \<^verbatim>\<open>ast.dot\<close> cannot be opened or when the parser yields no
  translation unit, and with 0 otherwise; the return values of the two \<^verbatim>\<open>system\<close>
  calls have no part in it.
\<close>

theorem exit_status_nonzero_iff_fatal:
  assumes "argv e \<noteq> []"
    and "\<forall>rootCursor. 2 \<le> argc e \<and> fopenError e = None \<and> parseResult e = Some rootCursor \<longrightarrow>
           depth rootCursor \<le> 1024 \<and> int (length (visitedNodes rootCursor)) < INT_MAX"
  shows "\<exists>r. main e = Inr r \<and>
           (exitStatus r \<noteq> 0 \<longleftrightarrow> argc e < 2 \<or> fopenError e \<noteq> None \<or> parseResult e = None) \<and>
           (exitStatus r = 0 \<or> exitStatus r = 1) \<and>
           map_sum id exitStatus (main (e\<lparr>dotStatus := d, viewerStatus := v\<rparr>)) =
             Inr (exitStatus r)"
proof -
  have "\<exists>r. main e = Inr r"
  proof (cases "argc e < 2")
    case True
    with assms(1) show ?thesis
      by (cases "argv e") (simp_all add: main_def)
  next
    case False
    show ?thesis
    proof (cases "fopenError e")
      case (Some msg)
      with False show ?thesis by (simp add: main_def)
    next
      case None
      note opened = this
      show ?thesis
      proof (cases "parseResult e")
        case None
        with False opened show ?thesis by (simp add: main_def)
      next
        case (Some rootCursor)
        with assms(2) False opened have "depth rootCursor \<le> 1024"
          and "int (length (visitedNodes rootCursor)) < INT_MAX"
          by auto
        then obtain m where "traverse rootCursor = Inr m"
          using traverse_completes by blast
        with False opened Some show ?thesis by (simp add: main_def)
      qed
    qed
  qed
  then obtain r where r: "main e = Inr r" ..
  note c = returned_exit_status [OF r, where d = d and v = v]
  show ?thesis
  proof (intro exI conjI)
    show "main e = Inr r" by (rule r)
    show "exitStatus r \<noteq> 0 \<longleftrightarrow> argc e < 2 \<or> fopenError e \<noteq> None \<or> parseResult e = None"
      by (rule c [THEN conjunct1])
    show "exitStatus r = 0 \<or> exitStatus r = 1"
      by (rule c [THEN conjunct2, THEN conjunct1])
    show "map_sum id exitStatus (main (e\<lparr>dotStatus := d, viewerStatus := v\<rparr>)) =
        Inr (exitStatus r)"
      by (rule c [THEN conjunct2, THEN conjunct2])
  qed
qed

theorem exit_status_nonzero_iff_fatal_witness:
  "argv exampleRun \<noteq> [] \<and> parseResult exampleRun = Some exampleUnit \<and>
   depth exampleUnit \<le> 1024 \<and> int (length (visitedNodes exampleUnit)) < INT_MAX \<and>
   main exampleRun = Inr exampleOutcome \<and> exitStatus exampleOutcome = 0 \<and>
   dotStatus exampleRun = 1 \<and> viewerStatus exampleRun = 1 \<and>
   map_sum id exitStatus (main (exampleRun\<lparr>dotStatus := 0, viewerStatus := 0\<rparr>)) = Inr 0 \<and>
   argv parseFailure \<noteq> [] \<and> parseResult parseFailure = None \<and>
   main parseFailure = Inr parseFailureOutcome \<and> exitStatus parseFailureOutcome = 1"
proof -
  have d: "depth exampleUnit \<le> 1024" and s: "int (length (visitedNodes exampleUnit)) < INT_MAX"
    by code_simp+
  have a: "argv exampleRun \<noteq> []" "parseResult exampleRun = Some exampleUnit"
    "dotStatus exampleRun = 1" "viewerStatus exampleRun = 1"
    by (simp_all add: exampleRun_def)
  have a': "argv parseFailure \<noteq> []" "parseResult parseFailure = None"
    by (simp_all add: parseFailure_def)
  have h1: "main exampleRun = Inr exampleOutcome" by code_simp
  have h2: "main parseFailure = Inr parseFailureOutcome" by code_simp
  have v: "exitStatus exampleOutcome = 0" "exitStatus parseFailureOutcome = 1"
    by (simp_all add: exampleOutcome_def parseFailureOutcome_def)
  have lim: "\<forall>rootCursor. 2 \<le> argc exampleRun \<and> fopenError exampleRun = None \<and>
      parseResult exampleRun = Some rootCursor \<longrightarrow>
      depth rootCursor \<le> 1024 \<and> int (length (visitedNodes rootCursor)) < INT_MAX"
    using d s a(2) by simp
  have lim': "\<forall>rootCursor. 2 \<le> argc parseFailure \<and> fopenError parseFailure = None \<and>
      parseResult parseFailure = Some rootCursor \<longrightarrow>
      depth rootCursor \<le> 1024 \<and> int (length (visitedNodes rootCursor)) < INT_MAX"
    using a'(2) by simp
  from exit_status_nonzero_iff_fatal [OF a(1) lim, of 0 0] h1 v(1)
  have b: "map_sum id exitStatus (main (exampleRun\<lparr>dotStatus := 0, viewerStatus := 0\<rparr>)) = Inr 0"
    by auto
  from exit_status_nonzero_iff_fatal [OF a'(1) lim', of 0 0] h2
  have b': "exitStatus parseFailureOutcome \<noteq> 0"
    using a'(2) by auto
  from d s a a' h1 h2 v b b' show ?thesis by blast
qed

section \<open>Parse failure\<close>

text \<open>
  C8, as the code has it. The file is opened and its header written (lines 81 to 86)
  before the parser runs (line 90). When the parser yields no translation unit, the run
  returns 1, reports the failure, prints no metrics and writes no node or edge
  statement; \<^verbatim>\<open>ast.dot\<close> has been created or truncated and holds the header line.
\<close>

theorem parse_failure_outcome:
  "2 \<le> argc e \<Longrightarrow> fopenError e = None \<Longrightarrow> parseResult e = None \<Longrightarrow>
     main e =
       Inr \<lparr>exitStatus = 1, stderr = [''Unable to parse translation unit!'' @ [newline]],
            stdout = [], dotWritten = Some [GraphOpen]\<rparr>"
  by (simp add: main_def)

theorem parse_failure_outcome_witness:
  "2 \<le> argc parseFailure \<and> fopenError parseFailure = None \<and> parseResult parseFailure = None \<and>
   main parseFailure =
     Inr \<lparr>exitStatus = 1, stderr = [''Unable to parse translation unit!'' @ [newline]],
          stdout = [], dotWritten = Some [GraphOpen]\<rparr>"
proof -
  have h: "2 \<le> argc parseFailure" "fopenError parseFailure = None" "parseResult parseFailure = None"
    by (simp_all add: parseFailure_def argc_def)
  from parse_failure_outcome [OF h] h show ?thesis by blast
qed

text \<open>
  C8 as stated fails: after the failed run the file is not empty, it holds
  \<^verbatim>\<open>digraph G {\<close>.
\<close>

theorem parse_failure_leaves_header_in_file:
  "main parseFailure = Inr parseFailureOutcome \<and>
   dotWritten parseFailureOutcome = Some [GraphOpen] \<and>
   file_text [GraphOpen] = ''digraph G {'' @ [newline] \<and>
   dotWritten parseFailureOutcome \<noteq> None \<and> file_text [GraphOpen] \<noteq> []"
proof -
  have "main parseFailure = Inr parseFailureOutcome" by code_simp
  then show ?thesis by (simp add: parseFailureOutcome_def file_text_def)
qed

section \<open>Labels\<close>

text \<open>
  A label without double quote and backslash gives a well-formed node statement.
\<close>

lemma quotedEnd_plain:
  "dquote \<notin> set label \<Longrightarrow> backslash \<notin> set label \<Longrightarrow> quotedEnd (label @ dquote # rest) = Some rest"
  by (induction label) auto

lemma plain_label_well_formed:
  "dquote \<notin> set label \<Longrightarrow> backslash \<notin> set label \<Longrightarrow> nodeStmtWellFormed nodeId label"
  by (simp add: nodeStmtWellFormed_def quotedEnd_plain)

text \<open>
  C7. Line 26 puts the spelling between two double quotes and writes it as it is. On
  the declaration \<^verbatim>\<open>const char *s = "hi";\<close> the statement for the literal reads
  \<^verbatim>\<open>node1 [label=""hi""];\<close>: the string closes at once, and the statement is not
  well formed.
\<close>

theorem label_written_unescaped:
  "traverse literalUnit = Inr literalFinal \<and>
   dotFile literalFinal = [GraphOpen, NodeStmt 0 ''s'', NodeStmt 1 quotedHi, EdgeStmt 0 1] \<and>
   render (NodeStmt 1 quotedHi) =
     ''  node1 [label='' @ [dquote, dquote] @ ''hi'' @ [dquote, dquote] @ ''];'' @ [newline] \<and>
   \<not> nodeStmtWellFormed 1 quotedHi"
proof -
  have "traverse literalUnit = Inr literalFinal" by code_simp
  moreover have "render (NodeStmt 1 quotedHi) =
     ''  node1 [label='' @ [dquote, dquote] @ ''hi'' @ [dquote, dquote] @ ''];'' @ [newline]"
    by code_simp
  moreover have "\<not> nodeStmtWellFormed 1 quotedHi" by code_simp
  ultimately show ?thesis by (simp add: literalFinal_def)
qed

end
